theory Spec2Isabelle
  imports Main
begin

section \<open>Shared constants and the interaction boundary\<close>

text \<open>
  Both programs (\<^verbatim>\<open>astar.cpp\<close> and \<^verbatim>\<open>backtracking.cpp\<close>) work on a 9 x 9 table of
  heap-allocated cells. After \<^verbatim>\<open>init_game_table\<close> every table slot holds one fixed
  \<^verbatim>\<open>shared_ptr\<close>, so a cell pointer is modelled by the coordinates \<open>(n, m)\<close> (row, column)
  of the slot it lives in, and the table is a store from coordinates to cell records.
  The C++ \<^verbatim>\<open>int\<close> is modelled by \<open>int\<close>: every cost the programs compute is at most
  \<open>2 * INF_VAL\<close>, far from the 32-bit range.
\<close>

type_synonym cell_ptr = "int \<times> int"

text \<open>The constant \<^verbatim>\<open>INF = INT16_MAX\<close> (the name \<open>INF\<close> is taken by the lattice binder).\<close>

definition INF_VAL :: int where
  "INF_VAL = 32767"

definition TABLE_SIZE :: int where
  "TABLE_SIZE = 9"

text \<open>
  One oracle event is the triple read by \<^verbatim>\<open>std::cin >> m >> n >> status\<close>, in that order;
  one response is the list of events announced by the count read before. The standard
  input that follows the three start-up integers is the list of the responses still to be
  read. A read on exhausted input fails and leaves \<^verbatim>\<open>response_size = 0\<close>, which is an
  empty response.
\<close>

type_synonym event = "int \<times> int \<times> char"
type_synonym response = "event list"

definition read_response :: "response list \<Rightarrow> response \<times> response list" where
  "read_response inp = (case inp of [] \<Rightarrow> ([], []) | r # rs \<Rightarrow> (r, rs))"

text \<open>The lines written to standard output: \<^verbatim>\<open>m <col> <row>\<close> and \<^verbatim>\<open>e <cost>\<close>.\<close>

datatype out_line = Move int int | Exit int

fun show_nat :: "nat \<Rightarrow> string" where
  "show_nat n = (if n < 10 then [''0123456789'' ! n]
                 else show_nat (n div 10) @ [''0123456789'' ! (n mod 10)])"

declare show_nat.simps [simp del]

definition show_int :: "int \<Rightarrow> string" where
  "show_int i = (if i < 0 then CHR ''-'' # show_nat (nat (- i)) else show_nat (nat i))"

fun render :: "out_line \<Rightarrow> string" where
  "render (Move m n) = ''m '' @ show_int m @ '' '' @ show_int n"
| "render (Exit c) = ''e '' @ show_int c"

text \<open>
  Faults of the C++ programs that the model makes explicit: dereferencing
  \<^verbatim>\<open>open.begin()\<close> of an empty set, indexing the table out of range and walking an
  empty path (\<^verbatim>\<open>std::next(path.rbegin())\<close> on an empty vector).
\<close>

datatype error = EmptyFrontier | BadIndex | EmptyPath

definition in_borders :: "int \<Rightarrow> int \<Rightarrow> bool" where
  "in_borders n m = (n \<ge> 0 \<and> n < TABLE_SIZE \<and> m \<ge> 0 \<and> m < TABLE_SIZE)"

definition manhattan_distance :: "int \<Rightarrow> int \<Rightarrow> int \<Rightarrow> int \<Rightarrow> int" where
  "manhattan_distance from_n from_m to_n to_m =
     (let delta_n = \<bar>from_n - to_n\<bar>; delta_m = \<bar>from_m - to_m\<bar> in delta_n + delta_m)"

section \<open>The best-first engine (astar.cpp)\<close>

subsection \<open>Cells and the table\<close>

record cell =
  from_player_cost :: int
  to_target_cost :: int
  cell_status :: char
  parent :: "cell_ptr option"
  possibly_picked_by :: "char set"

type_synonym game_table = "cell_ptr \<Rightarrow> cell"

text \<open>The constructor \<^verbatim>\<open>cell(n, m, from_player_cost, to_target_cost, cell_status, parent)\<close>
  with its default arguments.\<close>

definition new_cell :: "int \<Rightarrow> int \<Rightarrow> char \<Rightarrow> cell" where
  "new_cell fpc ttc st =
     \<lparr>from_player_cost = fpc, to_target_cost = ttc, cell_status = st,
      parent = None, possibly_picked_by = {}\<rparr>"

definition sum_cost :: "cell \<Rightarrow> int" where
  "sum_cost c = from_player_cost c + to_target_cost c"

definition neighbour :: "cell_ptr \<Rightarrow> cell_ptr \<Rightarrow> bool" where
  "neighbour a b = (\<bar>fst a - fst b\<bar> + \<bar>snd a - snd b\<bar> < 2)"

definition dangerous_status :: "cell \<Rightarrow> bool" where
  "dangerous_status c =
     (cell_status c = CHR ''P'' \<or> cell_status c = CHR ''M'' \<or>
      cell_status c = CHR ''H'' \<or> cell_status c = CHR ''T'')"

text \<open>
  \<^verbatim>\<open>cell::path\<close>: the loop \<^verbatim>\<open>for (auto cl = c; cl; cl = cl->parent)\<close>. It does not return
  on a cyclic parent chain, which is the value \<open>None\<close>.
\<close>

partial_function (option) path :: "game_table \<Rightarrow> cell_ptr option \<Rightarrow> cell_ptr list option" where
  "path tbl c =
     (case c of
        None \<Rightarrow> Some []
      | Some cl \<Rightarrow> Option.bind (path tbl (parent (tbl cl))) (\<lambda>r. Some (cl # r)))"

declare path.simps [code]

text \<open>\<^verbatim>\<open>std::less<cell_ptr>\<close>, the comparator of the open set.\<close>

definition less_cell :: "game_table \<Rightarrow> cell_ptr \<Rightarrow> cell_ptr \<Rightarrow> bool" where
  "less_cell tbl first second =
     (if sum_cost (tbl first) \<noteq> sum_cost (tbl second)
        then sum_cost (tbl first) < sum_cost (tbl second)
      else if to_target_cost (tbl first) \<noteq> to_target_cost (tbl second)
        then to_target_cost (tbl first) < to_target_cost (tbl second)
      else if from_player_cost (tbl first) \<noteq> from_player_cost (tbl second)
        then from_player_cost (tbl first) < from_player_cost (tbl second)
      else if fst first \<noteq> fst second
        then fst first < fst second
      else snd first < snd second)"

text \<open>
  The open set is a \<^verbatim>\<open>std::set<cell_ptr>\<close>: it is modelled by the list of its elements in
  iteration order. The program changes the costs of a cell only between erasing it from
  the set and inserting it again, so the order fixed at insertion is the order of the
  comparator on the current table. \<^verbatim>\<open>insert\<close> walks to the first element that is not
  less than the new one and does nothing when an equivalent element is present;
  \<^verbatim>\<open>erase(key)\<close> removes the element equivalent to the key.
\<close>

fun pq_insert :: "game_table \<Rightarrow> cell_ptr \<Rightarrow> cell_ptr list \<Rightarrow> cell_ptr list" where
  "pq_insert tbl c [] = [c]"
| "pq_insert tbl c (x # xs) =
     (if less_cell tbl c x then c # x # xs
      else if less_cell tbl x c then x # pq_insert tbl c xs
      else x # xs)"

definition pq_erase :: "game_table \<Rightarrow> cell_ptr \<Rightarrow> cell_ptr list \<Rightarrow> cell_ptr list" where
  "pq_erase tbl c xs = filter (\<lambda>x. less_cell tbl x c \<or> less_cell tbl c x) xs"

text \<open>\<^verbatim>\<open>cell_path_as_set\<close>: the cell itself and every cell of its parent's chain.\<close>

definition cell_path_as_set :: "game_table \<Rightarrow> cell_ptr \<Rightarrow> cell_ptr set option" where
  "cell_path_as_set tbl c =
     map_option (\<lambda>p. insert c (set p)) (path tbl (parent (tbl c)))"

text \<open>
  \<^verbatim>\<open>init_game_table\<close>: default cells everywhere, then the start cell at \<open>(0, 0)\<close>, then
  the target cell, written last. A target outside the table is an out-of-range index.
\<close>

definition init_game_table :: "int \<Rightarrow> int \<Rightarrow> error + game_table" where
  "init_game_table inf_stone_n inf_stone_m =
     (if in_borders inf_stone_n inf_stone_m then
        Inr (((\<lambda>_. new_cell INF_VAL INF_VAL (CHR 0x00))
               ((0, 0) := new_cell 0 (manhattan_distance 0 0 inf_stone_n inf_stone_m) (CHR ''A'')))
               ((inf_stone_n, inf_stone_m) := new_cell INF_VAL 0 (CHR ''I'')))
      else Inl BadIndex)"

subsection \<open>The engine's state\<close>

record astar_state =
  table :: game_table
  open_pq :: "cell_ptr list"
  closed :: "cell_ptr set"
  has_shield :: bool
  cur_pos :: cell_ptr
  cin :: "response list"
  cout :: "out_line list"

text \<open>
  \<^verbatim>\<open>stupid_move\<close>: writes the move request, moves, then reads one response and drops
  every event of it.
\<close>

definition stupid_move :: "cell_ptr \<Rightarrow> astar_state \<Rightarrow> astar_state" where
  "stupid_move c s =
     s\<lparr>cout := cout s @ [Move (snd c) (fst c)],
       cur_pos := c,
       cin := snd (read_response (cin s))\<rparr>"

text \<open>\<^verbatim>\<open>return_to_start\<close>: steps to the parent until the current cell has none.\<close>

partial_function (option) return_to_start :: "astar_state \<Rightarrow> astar_state option" where
  "return_to_start s =
     (case parent (table s (cur_pos s)) of
        None \<Rightarrow> Some s
      | Some p \<Rightarrow> return_to_start (stupid_move p s))"

declare return_to_start.simps [code]

text \<open>
  \<^verbatim>\<open>least_common_ancestor\<close>: the first cell of the reversed path of \<open>first\<close> (that is,
  scanning from the root end) that is in the path set of \<open>second\<close>; the inner \<open>None\<close> is
  the null pointer returned when there is none.
\<close>

definition least_common_ancestor ::
    "game_table \<Rightarrow> cell_ptr \<Rightarrow> cell_ptr \<Rightarrow> cell_ptr option option" where
  "least_common_ancestor tbl first second =
     (case path tbl (Some first) of
        None \<Rightarrow> None
      | Some first_path \<Rightarrow>
          (case cell_path_as_set tbl second of
             None \<Rightarrow> None
           | Some second_path \<Rightarrow> Some (find (\<lambda>c. c \<in> second_path) (rev first_path))))"

text \<open>
  \<^verbatim>\<open>stupid_move_to_known_target\<close>: walks the path of \<open>target\<close> from the cell after the
  root to \<open>target\<close>, picking the shield up on the way.
\<close>

definition walk_step :: "astar_state \<Rightarrow> cell_ptr \<Rightarrow> astar_state" where
  "walk_step s c =
     (let s' = stupid_move c s in
      if cell_status (table s' c) = CHR ''S'' then s'\<lparr>has_shield := True\<rparr> else s')"

definition stupid_move_to_known_target ::
    "cell_ptr option \<Rightarrow> astar_state \<Rightarrow> (error + astar_state) option" where
  "stupid_move_to_known_target target s =
     (case path (table s) target of
        None \<Rightarrow> None
      | Some p \<Rightarrow>
          (case rev p of
             [] \<Rightarrow> Some (Inl EmptyPath)
           | root # rest \<Rightarrow> Some (Inr (foldl walk_step s rest))))"

text \<open>\<^verbatim>\<open>open_neighbours\<close> and its lambda \<^verbatim>\<open>update_then_check_cell\<close>.\<close>

definition update_then_check_cell ::
    "cell_ptr \<Rightarrow> int \<Rightarrow> int \<Rightarrow> int \<Rightarrow> int \<Rightarrow> astar_state \<Rightarrow> astar_state" where
  "update_then_check_cell cur inf_stone_n inf_stone_m cn cm s =
     (if in_borders cn cm \<and> \<not> dangerous_status (table s (cn, cm)) then
        (let new_from_player_cost = from_player_cost (table s cur) + 1;
             new_to_target_cost = manhattan_distance cn cm inf_stone_n inf_stone_m
         in if new_from_player_cost < from_player_cost (table s (cn, cm)) then
              (let erased = pq_erase (table s) (cn, cm) (open_pq s);
                   tbl' = (table s)((cn, cm) := (table s (cn, cm))
                            \<lparr>from_player_cost := new_from_player_cost,
                             to_target_cost := new_to_target_cost,
                             parent := Some cur\<rparr>)
               in s\<lparr>table := tbl', open_pq := pq_insert tbl' (cn, cm) erased\<rparr>)
            else s)
      else s)"

definition open_neighbours :: "cell_ptr \<Rightarrow> int \<Rightarrow> int \<Rightarrow> astar_state \<Rightarrow> astar_state" where
  "open_neighbours cur inf_stone_n inf_stone_m s =
     (let n = fst cur; m = snd cur;
          s1 = update_then_check_cell cur inf_stone_n inf_stone_m (n - 1) m s;
          s2 = update_then_check_cell cur inf_stone_n inf_stone_m (n + 1) m s1;
          s3 = update_then_check_cell cur inf_stone_n inf_stone_m n (m - 1) s2
      in update_then_check_cell cur inf_stone_n inf_stone_m n (m + 1) s3)"

text \<open>
  The body of the response loop of \<^verbatim>\<open>move_then_update\<close> for one event: the status is
  written, a dangerous cell is closed, and in perception mode its attribution set is
  filled when empty. \<^verbatim>\<open>table[n][m]\<close> is not checked against the borders.
\<close>

definition apply_event :: "int \<Rightarrow> astar_state \<Rightarrow> event \<Rightarrow> error + astar_state" where
  "apply_event thanos_mode s ev =
     (case ev of (m, n, status) \<Rightarrow>
        if \<not> in_borders n m then Inl BadIndex
        else
          (let c1 = (table s (n, m))\<lparr>cell_status := status\<rparr>;
               closed' = (if dangerous_status c1 then insert (n, m) (closed s) else closed s);
               c2 = (if dangerous_status c1 \<and> possibly_picked_by c1 = {} \<and> thanos_mode \<noteq> 0
                     then c1\<lparr>possibly_picked_by :=
                            possibly_picked_by c1 \<union> {CHR ''H'', CHR ''M'', CHR ''T''}\<rparr>
                     else c1)
           in Inr (s\<lparr>table := (table s)((n, m) := c2), closed := closed'\<rparr>)))"

fun apply_events :: "int \<Rightarrow> astar_state \<Rightarrow> event list \<Rightarrow> error + astar_state" where
  "apply_events thanos_mode s [] = Inr s"
| "apply_events thanos_mode s (ev # evs) =
     (case apply_event thanos_mode s ev of
        Inl e \<Rightarrow> Inl e
      | Inr s' \<Rightarrow> apply_events thanos_mode s' evs)"

definition move_then_update ::
    "cell_ptr \<Rightarrow> int \<Rightarrow> int \<Rightarrow> int \<Rightarrow> astar_state \<Rightarrow> error + bool \<times> astar_state" where
  "move_then_update new_pos inf_stone_n inf_stone_m thanos_mode s =
     (let s1 = s\<lparr>cout := cout s @ [Move (snd new_pos) (fst new_pos)]\<rparr> in
      if cell_status (table s1 new_pos) = CHR ''I'' then Inr (True, s1)
      else
        (let s2 = s1\<lparr>cur_pos := new_pos, closed := insert new_pos (closed s1)\<rparr>;
             s3 = (if cell_status (table s2 new_pos) = CHR ''S''
                   then s2\<lparr>has_shield := True\<rparr> else s2);
             rd = read_response (cin s3)
         in case apply_events thanos_mode (s3\<lparr>cin := snd rd\<rparr>) (fst rd) of
              Inl e \<Rightarrow> Inl e
            | Inr s4 \<Rightarrow> Inr (False, open_neighbours new_pos inf_stone_n inf_stone_m s4)))"

text \<open>
  The inner \<^verbatim>\<open>for (;;)\<close> loop of \<^verbatim>\<open>launch_a_star\<close>: take \<^verbatim>\<open>*open.begin()\<close>, erase it,
  stop when it is not closed. The loop does not test for an empty set.
\<close>

fun extract_best :: "cell_ptr set \<Rightarrow> cell_ptr list \<Rightarrow> error + cell_ptr \<times> cell_ptr list" where
  "extract_best cl [] = Inl EmptyFrontier"
| "extract_best cl (best # rest) =
     (if best \<notin> cl then Inr (best, rest) else extract_best cl rest)"

text \<open>
  The reconciliation block of \<^verbatim>\<open>launch_a_star\<close>, run when \<open>best\<close> is not a neighbour of
  the current position: \<^verbatim>\<open>return_to_start\<close>, the shield reset, then
  \<^verbatim>\<open>stupid_move_to_known_target\<close> to the parent of \<open>best\<close>.
\<close>

definition reconcile :: "cell_ptr \<Rightarrow> astar_state \<Rightarrow> (error + astar_state) option" where
  "reconcile best s =
     (if \<not> neighbour (cur_pos s) best then
        (case return_to_start s of
           None \<Rightarrow> None
         | Some s1 \<Rightarrow>
             stupid_move_to_known_target (parent (table s1 best)) (s1\<lparr>has_shield := False\<rparr>))
      else Some (Inr s))"

text \<open>
  One pass through the body of the \<^verbatim>\<open>while (!open.empty())\<close> loop of
  \<^verbatim>\<open>launch_a_star\<close>: extraction, reconciliation, then \<^verbatim>\<open>move_then_update\<close>. \<open>None\<close>
  is a pass that does not return from a walk along a parent chain.
\<close>

definition loop_body ::
    "int \<Rightarrow> int \<Rightarrow> int \<Rightarrow> astar_state \<Rightarrow> (error + bool \<times> astar_state) option" where
  "loop_body inf_stone_n inf_stone_m thanos_mode s =
     (case extract_best (closed s) (open_pq s) of
        Inl e \<Rightarrow> Some (Inl e)
      | Inr (best, rest) \<Rightarrow>
          (case reconcile best (s\<lparr>open_pq := rest\<rparr>) of
             None \<Rightarrow> None
           | Some (Inl e) \<Rightarrow> Some (Inl e)
           | Some (Inr s1) \<Rightarrow>
               (case move_then_update best inf_stone_n inf_stone_m thanos_mode s1 of
                  Inl e \<Rightarrow> Some (Inl e)
                | Inr r \<Rightarrow> Some (Inr r))))"

text \<open>
  The loop itself. The first argument bounds the number of passes; \<open>None\<close> is a run that
  needs more passes, or one whose pass does not return.
\<close>

fun launch_loop ::
    "nat \<Rightarrow> int \<Rightarrow> int \<Rightarrow> int \<Rightarrow> astar_state \<Rightarrow> (error + bool \<times> astar_state) option" where
  "launch_loop 0 inf_stone_n inf_stone_m thanos_mode s = None"
| "launch_loop (Suc k) inf_stone_n inf_stone_m thanos_mode s =
     (if open_pq s = [] then Some (Inr (False, s))
      else
        (case loop_body inf_stone_n inf_stone_m thanos_mode s of
           None \<Rightarrow> None
         | Some (Inl e) \<Rightarrow> Some (Inl e)
         | Some (Inr (is_stone_found, s')) \<Rightarrow>
             if is_stone_found then Some (Inr (True, s'))
             else launch_loop k inf_stone_n inf_stone_m thanos_mode s'))"

text \<open>\<^verbatim>\<open>launch_a_star\<close> starts at \<^verbatim>\<open>table[0][0]\<close>; \<^verbatim>\<open>main\<close> builds the table, puts the
  start cell into the open set and prints the result line.\<close>

definition initial_state :: "game_table \<Rightarrow> response list \<Rightarrow> astar_state" where
  "initial_state tbl inp =
     \<lparr>table = tbl, open_pq = pq_insert tbl (0, 0) [], closed = {}, has_shield = False,
      cur_pos = (0, 0), cin = inp, cout = []\<rparr>"

definition launch_a_star ::
    "nat \<Rightarrow> int \<Rightarrow> int \<Rightarrow> int \<Rightarrow> astar_state \<Rightarrow> (error + bool \<times> astar_state) option" where
  "launch_a_star fuel inf_stone_n inf_stone_m thanos_mode s =
     launch_loop fuel inf_stone_n inf_stone_m thanos_mode (s\<lparr>cur_pos := (0, 0)\<rparr>)"

definition astar_main ::
    "nat \<Rightarrow> int \<Rightarrow> int \<Rightarrow> int \<Rightarrow> response list \<Rightarrow> (error + out_line list) option" where
  "astar_main fuel thanos_perception_variant inf_stone_m inf_stone_n inp =
     (case init_game_table inf_stone_n inf_stone_m of
        Inl e \<Rightarrow> Some (Inl e)
      | Inr tbl \<Rightarrow>
          (case launch_a_star fuel inf_stone_n inf_stone_m thanos_perception_variant
                  (initial_state tbl inp) of
             None \<Rightarrow> None
           | Some (Inl e) \<Rightarrow> Some (Inl e)
           | Some (Inr (found, s)) \<Rightarrow>
               if \<not> found then Some (Inr (cout s @ [Exit (- 1)]))
               else Some (Inr (cout s @
                      [Exit (from_player_cost (table s (inf_stone_n, inf_stone_m)))]))))"

text \<open>
  The state of a run at the top of the loop after \<open>k\<close> complete passes, none of which
  found the stone; \<open>None\<close> when the run does not get that far. It names the intermediate
  states of \<open>launch_loop\<close>.
\<close>

fun after_passes ::
    "nat \<Rightarrow> int \<Rightarrow> int \<Rightarrow> int \<Rightarrow> astar_state \<Rightarrow> astar_state option" where
  "after_passes 0 inf_stone_n inf_stone_m thanos_mode s = Some s"
| "after_passes (Suc k) inf_stone_n inf_stone_m thanos_mode s =
     (if open_pq s = [] then None
      else
        (case loop_body inf_stone_n inf_stone_m thanos_mode s of
           Some (Inr (False, s')) \<Rightarrow> after_passes k inf_stone_n inf_stone_m thanos_mode s'
         | _ \<Rightarrow> None))"

text \<open>
  The specification's reading of the least common ancestor, for comparison with
  \<open>least_common_ancestor\<close>: "the deepest cell common to both parent chains", that is the
  first cell on the way from \<open>first\<close> to the root that is in the chain of \<open>second\<close>.
\<close>

definition spec_deepest_common_ancestor ::
    "game_table \<Rightarrow> cell_ptr \<Rightarrow> cell_ptr \<Rightarrow> cell_ptr option option" where
  "spec_deepest_common_ancestor tbl first second =
     (case path tbl (Some first) of
        None \<Rightarrow> None
      | Some first_path \<Rightarrow>
          (case cell_path_as_set tbl second of
             None \<Rightarrow> None
           | Some second_path \<Rightarrow> Some (find (\<lambda>c. c \<in> second_path) first_path)))"

section \<open>The exhaustive engine (backtracking.cpp)\<close>

subsection \<open>Cells and the table\<close>

text \<open>The cell class of \<^verbatim>\<open>backtracking.cpp\<close> has no heuristic and no parent.\<close>

record bt_cell =
  bt_from_player_cost :: int
  bt_cell_status :: char
  bt_possibly_picked_by :: "char set"

type_synonym bt_game_table = "cell_ptr \<Rightarrow> bt_cell"

text \<open>The constructor \<^verbatim>\<open>cell(n, m, cell_status, from_player_cost)\<close>.\<close>

definition bt_new_cell :: "char \<Rightarrow> int \<Rightarrow> bt_cell" where
  "bt_new_cell st fpc =
     \<lparr>bt_from_player_cost = fpc, bt_cell_status = st, bt_possibly_picked_by = {}\<rparr>"

definition bt_dangerous_status :: "bt_cell \<Rightarrow> bool" where
  "bt_dangerous_status c =
     (bt_cell_status c = CHR ''P'' \<or> bt_cell_status c = CHR ''M'' \<or>
      bt_cell_status c = CHR ''H'' \<or> bt_cell_status c = CHR ''T'')"

definition bt_init_game_table :: "int \<Rightarrow> int \<Rightarrow> error + bt_game_table" where
  "bt_init_game_table inf_stone_n inf_stone_m =
     (if in_borders inf_stone_n inf_stone_m then
        Inr (((\<lambda>_. bt_new_cell (CHR 0x00) INF_VAL)
               ((0, 0) := bt_new_cell (CHR ''A'') 0))
               ((inf_stone_n, inf_stone_m) := bt_new_cell (CHR ''I'') INF_VAL))
      else Inl BadIndex)"

subsection \<open>Depth-first exploration\<close>

text \<open>
  The state threaded through \<^verbatim>\<open>backtracking_dfs\<close>. The field \<open>dfs_calls\<close> is not in the
  program: it counts the invocations of \<^verbatim>\<open>backtracking_dfs\<close>.
\<close>

record bt_state =
  btable :: bt_game_table
  visited :: "cell_ptr set"
  bt_has_shield :: bool
  bt_cin :: "response list"
  bt_cout :: "out_line list"
  dfs_calls :: nat

definition bt_stupid_move :: "cell_ptr \<Rightarrow> bt_state \<Rightarrow> bt_state" where
  "bt_stupid_move pos s =
     s\<lparr>bt_cout := bt_cout s @ [Move (snd pos) (fst pos)],
       bt_cin := snd (read_response (bt_cin s))\<rparr>"

text \<open>The response loop of \<^verbatim>\<open>move_then_update\<close>: only the status is written (the
  attribution code is commented out in the source).\<close>

definition bt_apply_event :: "bt_state \<Rightarrow> event \<Rightarrow> error + bt_state" where
  "bt_apply_event s ev =
     (case ev of (m, n, status) \<Rightarrow>
        if \<not> in_borders n m then Inl BadIndex
        else Inr (s\<lparr>btable := (btable s)((n, m) := (btable s (n, m))\<lparr>bt_cell_status := status\<rparr>)\<rparr>))"

fun bt_apply_events :: "bt_state \<Rightarrow> event list \<Rightarrow> error + bt_state" where
  "bt_apply_events s [] = Inr s"
| "bt_apply_events s (ev # evs) =
     (case bt_apply_event s ev of
        Inl e \<Rightarrow> Inl e
      | Inr s' \<Rightarrow> bt_apply_events s' evs)"

definition bt_move_then_update ::
    "cell_ptr \<Rightarrow> int \<Rightarrow> bt_state \<Rightarrow> error + bool \<times> bt_state" where
  "bt_move_then_update pos thanos_mode s =
     (let s1 = s\<lparr>bt_cout := bt_cout s @ [Move (snd pos) (fst pos)],
                 visited := insert pos (visited s)\<rparr>;
          s2 = (if bt_cell_status (btable s1 pos) = CHR ''S''
                then s1\<lparr>bt_has_shield := True\<rparr> else s1);
          rd = read_response (bt_cin s2)
      in case bt_apply_events (s2\<lparr>bt_cin := snd rd\<rparr>) (fst rd) of
           Inl e \<Rightarrow> Inl e
         | Inr s3 \<Rightarrow> Inr (bt_cell_status (btable s3 pos) = CHR ''I'', s3))"

text \<open>The vector \<^verbatim>\<open>next\<close> of both searches, in the source's order.\<close>

definition next_cells :: "cell_ptr \<Rightarrow> cell_ptr list" where
  "next_cells cur =
     [(fst cur - 1, snd cur), (fst cur, snd cur - 1), (fst cur, snd cur + 1),
      (fst cur + 1, snd cur)]"

text \<open>
  \<^verbatim>\<open>std::ranges::for_each\<close> over the lazy view \<^verbatim>\<open>valid_neighbours\<close>: the filters of a
  coordinate are evaluated when the iteration reaches it, that is after the recursive
  calls for the coordinates before it. \<open>rec\<close> is the recursive call.
\<close>

fun dfs_children ::
    "(cell_ptr \<Rightarrow> bt_state \<Rightarrow> (error + bool \<times> bt_state) option) \<Rightarrow>
     cell_ptr \<Rightarrow> cell_ptr list \<Rightarrow> bool \<Rightarrow> bt_state \<Rightarrow> (error + bool \<times> bt_state) option" where
  "dfs_children rec cur [] has_solution_in_child s = Some (Inr (has_solution_in_child, s))"
| "dfs_children rec cur (crds # rest) has_solution_in_child s =
     (if in_borders (fst crds) (snd crds) \<and> \<not> bt_dangerous_status (btable s crds)
         \<and> crds \<notin> visited s then
        (case rec crds s of
           None \<Rightarrow> None
         | Some (Inl e) \<Rightarrow> Some (Inl e)
         | Some (Inr (res, s1)) \<Rightarrow>
             dfs_children rec cur rest
               (if \<not> has_solution_in_child then res else has_solution_in_child)
               (bt_stupid_move cur s1))
      else dfs_children rec cur rest has_solution_in_child s)"

text \<open>
  \<^verbatim>\<open>backtracking_dfs\<close>. The first argument bounds the depth of the recursion; \<open>None\<close> is
  a run that needs more.
\<close>

fun backtracking_dfs ::
    "nat \<Rightarrow> int \<Rightarrow> cell_ptr \<Rightarrow> bt_state \<Rightarrow> (error + bool \<times> bt_state) option" where
  "backtracking_dfs 0 thanos_mode cur s = None"
| "backtracking_dfs (Suc k) thanos_mode cur s =
     (case bt_move_then_update cur thanos_mode (s\<lparr>dfs_calls := Suc (dfs_calls s)\<rparr>) of
        Inl e \<Rightarrow> Some (Inl e)
      | Inr (has_solution, s1) \<Rightarrow>
          (case dfs_children (backtracking_dfs k thanos_mode) cur (next_cells cur) False s1 of
             None \<Rightarrow> None
           | Some (Inl e) \<Rightarrow> Some (Inl e)
           | Some (Inr (has_solution_in_child, s2)) \<Rightarrow>
               Some (Inr (has_solution \<or> has_solution_in_child, s2))))"

subsection \<open>Breadth-first cost sweep\<close>

record bfs_state =
  bfs_table :: bt_game_table
  bfs_q :: "cell_ptr list"
  bfs_visited :: "cell_ptr set"

text \<open>
  One element of the lazy pipeline of \<^verbatim>\<open>backtracking_bfs\<close>, as \<^verbatim>\<open>std::ranges::any_of\<close>
  drives it: the two filters, then the transform that writes the cost and pushes the
  cell, then the test for the stone.
\<close>

definition bfs_visit :: "cell_ptr \<Rightarrow> cell_ptr \<Rightarrow> bfs_state \<Rightarrow> bool \<times> bfs_state" where
  "bfs_visit cur crds s =
     (if in_borders (fst crds) (snd crds) \<and> \<not> bt_dangerous_status (bfs_table s crds)
         \<and> crds \<notin> bfs_visited s then
        (let tbl' = (bfs_table s)(crds := (bfs_table s crds)
                      \<lparr>bt_from_player_cost := bt_from_player_cost (bfs_table s cur) + 1\<rparr>)
         in (bt_cell_status (tbl' crds) = CHR ''I'',
             s\<lparr>bfs_table := tbl', bfs_q := bfs_q s @ [crds]\<rparr>))
      else (False, s))"

text \<open>\<^verbatim>\<open>any_of\<close> stops at the first cell that holds the stone.\<close>

fun bfs_neighbours :: "cell_ptr \<Rightarrow> cell_ptr list \<Rightarrow> bfs_state \<Rightarrow> bool \<times> bfs_state" where
  "bfs_neighbours cur [] s = (False, s)"
| "bfs_neighbours cur (crds # rest) s =
     (case bfs_visit cur crds s of
        (True, s') \<Rightarrow> (True, s')
      | (False, s') \<Rightarrow> bfs_neighbours cur rest s')"

text \<open>\<^verbatim>\<open>q.front(); q.pop(); visited.insert(cur_pos)\<close> at the top of the loop body.\<close>

definition bfs_pop :: "cell_ptr \<Rightarrow> cell_ptr list \<Rightarrow> bfs_state \<Rightarrow> bfs_state" where
  "bfs_pop cur rest s = s\<lparr>bfs_q := rest, bfs_visited := insert cur (bfs_visited s)\<rparr>"

text \<open>The \<^verbatim>\<open>while (!q.empty())\<close> loop; the first argument bounds the number of passes.\<close>

fun bfs_loop :: "nat \<Rightarrow> bfs_state \<Rightarrow> bfs_state option" where
  "bfs_loop 0 s = None"
| "bfs_loop (Suc k) s =
     (case bfs_q s of
        [] \<Rightarrow> Some s
      | cur # rest \<Rightarrow>
          (case bfs_neighbours cur (next_cells cur) (bfs_pop cur rest s) of
             (True, s') \<Rightarrow> Some s'
           | (False, s') \<Rightarrow> bfs_loop k s'))"

definition bfs_start :: "bt_game_table \<Rightarrow> bfs_state" where
  "bfs_start tbl = \<lparr>bfs_table = tbl, bfs_q = [(0, 0)], bfs_visited = {}\<rparr>"

definition backtracking_bfs :: "nat \<Rightarrow> bt_game_table \<Rightarrow> bt_game_table option" where
  "backtracking_bfs fuel tbl = map_option bfs_table (bfs_loop fuel (bfs_start tbl))"

text \<open>The state of the sweep at the top of the loop after \<open>k\<close> complete passes that did
  not find the stone; \<open>None\<close> when the sweep has ended before.\<close>

fun bfs_after_passes :: "nat \<Rightarrow> bfs_state \<Rightarrow> bfs_state option" where
  "bfs_after_passes 0 s = Some s"
| "bfs_after_passes (Suc k) s =
     (case bfs_q s of
        [] \<Rightarrow> None
      | cur # rest \<Rightarrow>
          (case bfs_neighbours cur (next_cells cur) (bfs_pop cur rest s) of
             (True, s') \<Rightarrow> None
           | (False, s') \<Rightarrow> bfs_after_passes k s'))"

subsection \<open>The program\<close>

definition bt_initial_state :: "bt_game_table \<Rightarrow> response list \<Rightarrow> bt_state" where
  "bt_initial_state tbl inp =
     \<lparr>btable = tbl, visited = {}, bt_has_shield = False, bt_cin = inp, bt_cout = [],
      dfs_calls = 0\<rparr>"

definition launch_backtracking ::
    "nat \<Rightarrow> int \<Rightarrow> bt_state \<Rightarrow> (error + bool \<times> bt_state) option" where
  "launch_backtracking fuel thanos_mode s =
     (case backtracking_dfs fuel thanos_mode (0, 0) s of
        None \<Rightarrow> None
      | Some (Inl e) \<Rightarrow> Some (Inl e)
      | Some (Inr (has_solution, s1)) \<Rightarrow>
          if \<not> has_solution then Some (Inr (False, s1))
          else
            (case backtracking_bfs fuel (btable s1) of
               None \<Rightarrow> None
             | Some tbl \<Rightarrow> Some (Inr (True, s1\<lparr>btable := tbl\<rparr>))))"

definition bt_main ::
    "nat \<Rightarrow> int \<Rightarrow> int \<Rightarrow> int \<Rightarrow> response list \<Rightarrow> (error + out_line list) option" where
  "bt_main fuel thanos_perception_variant inf_stone_m inf_stone_n inp =
     (case bt_init_game_table inf_stone_n inf_stone_m of
        Inl e \<Rightarrow> Some (Inl e)
      | Inr tbl \<Rightarrow>
          (case launch_backtracking fuel thanos_perception_variant (bt_initial_state tbl inp) of
             None \<Rightarrow> None
           | Some (Inl e) \<Rightarrow> Some (Inl e)
           | Some (Inr (found, s)) \<Rightarrow>
               if \<not> found then Some (Inr (bt_cout s @ [Exit (- 1)]))
               else Some (Inr (bt_cout s @
                      [Exit (bt_from_player_cost (btable s (inf_stone_n, inf_stone_m)))]))))"

section \<open>Auxiliary notions for the statements\<close>

text \<open>
  The effect of a sequence of \<open>stupid_move\<close> calls to the cells \<open>cs\<close>: one move request
  and one dropped response for each, ending on the last of them.
\<close>

definition walked :: "cell_ptr list \<Rightarrow> astar_state \<Rightarrow> astar_state" where
  "walked cs s =
     s\<lparr>cur_pos := last (cur_pos s # cs),
       cout := cout s @ map (\<lambda>c. Move (snd c) (fst c)) cs,
       cin := drop (length cs) (cin s)\<rparr>"

text \<open>
  A run with a detour, target \<open>(2, 4)\<close>: the oracle reports a hazard at \<open>(1, 0)\<close> on the
  first step, at \<open>(1, 1)\<close> on the second, nothing on the third, and hazards at \<open>(0, 4)\<close>
  and \<open>(1, 3)\<close> on the fourth. \<open>detour_run\<close> is the state at the top of the fifth pass:
  the agent stands on \<open>(0, 3)\<close> and the open set holds only \<open>(1, 2)\<close>, a child of
  \<open>(0, 2)\<close>. The response still to be read, the one to the next step, reports a hazard
  at \<open>(1, 2)\<close>.
\<close>

definition detour_run :: "astar_state option" where
  "detour_run =
     (case init_game_table 2 4 of
        Inl e \<Rightarrow> None
      | Inr tbl \<Rightarrow>
          after_passes 4 2 4 0
            (initial_state tbl
               [[(0, 1, CHR ''P'')], [(1, 1, CHR ''P'')], [],
                [(4, 0, CHR ''P''), (3, 1, CHR ''P'')], [(2, 1, CHR ''P'')]]))"

text \<open>
  The status a cell has after the events \<open>evs\<close> have been applied in order, \<open>old\<close> being
  its status before: the status of the last event that names the cell.
\<close>

fun reported_status :: "event list \<Rightarrow> cell_ptr \<Rightarrow> char \<Rightarrow> char" where
  "reported_status [] c old = old"
| "reported_status (ev # evs) c old =
     reported_status evs c
       (case ev of (m, n, status) \<Rightarrow> if c = (n, m) then status else old)"

text \<open>A state of the exhaustive engine on a table of default cells, with one response
  to read that reports a hazard at \<open>(1, 2)\<close>.\<close>

definition bt_blank_state :: "bt_state" where
  "bt_blank_state =
     bt_initial_state (\<lambda>_. bt_new_cell (CHR 0x00) INF_VAL) [[(2, 1, CHR ''P'')]]"

text \<open>
  A run in which a hazard disappears, target \<open>(0, 2)\<close>: the response to the first step
  reports a hazard at \<open>(0, 1)\<close>, the response to the second step reports the neutral
  status \<open>.\<close> there, and later responses are empty. \<open>reopened_run k\<close> is the state at the
  top of the loop after \<open>k\<close> passes.
\<close>

definition reopened_run :: "nat \<Rightarrow> astar_state option" where
  "reopened_run k =
     (case init_game_table 0 2 of
        Inl e \<Rightarrow> None
      | Inr tbl \<Rightarrow>
          after_passes k 0 2 0
            (initial_state tbl [[(1, 0, CHR ''P'')], [(1, 0, CHR ''.'')]]))"

text \<open>The cells of the table.\<close>

definition grid :: "cell_ptr set" where
  "grid = {c. in_borders (fst c) (snd c)}"

text \<open>
  What a terminating call of \<open>backtracking_dfs\<close> on the cell \<open>c\<close> from the state \<open>s\<close>
  returns: a fault, or a state whose visited set contains the old one and \<open>c\<close>, adds only
  cells of the table, and has grown by one cell for each invocation counted.
\<close>

definition dfs_returns ::
    "(error + bool \<times> bt_state) option \<Rightarrow> cell_ptr \<Rightarrow> bt_state \<Rightarrow> bool" where
  "dfs_returns r c s =
     (case r of
        None \<Rightarrow> False
      | Some (Inl e) \<Rightarrow> True
      | Some (Inr (res, s')) \<Rightarrow>
          visited s \<subseteq> visited s' \<and> c \<in> visited s' \<and> visited s' \<subseteq> grid \<union> visited s \<and>
          dfs_calls s' + card (grid - visited s') = dfs_calls s + card (grid - visited s))"

text \<open>Predicates of the statements about the output: a line is a move request; no
  cost of the table is negative.\<close>

definition is_move :: "out_line \<Rightarrow> bool" where
  "is_move l = (case l of Move m n \<Rightarrow> True | Exit c \<Rightarrow> False)"

definition costs_nonneg :: "game_table \<Rightarrow> bool" where
  "costs_nonneg tbl = (\<forall>c. 0 \<le> from_player_cost (tbl c))"

definition bt_costs_nonneg :: "bt_game_table \<Rightarrow> bool" where
  "bt_costs_nonneg tbl = (\<forall>c. 0 \<le> bt_from_player_cost (tbl c))"

text \<open>
  Two states of the best-first engine agree on everything a decision of the engine
  reads: open set, closed set, position, output, and for every cell the costs, the
  parent, whether the status is dangerous and whether it is the target marker. They may
  differ in the attribution sets, the shield flag, the rest of the statuses and the
  input still to be read.
\<close>

definition core_eq :: "astar_state \<Rightarrow> astar_state \<Rightarrow> bool" where
  "core_eq s t =
     (open_pq s = open_pq t \<and> closed s = closed t \<and> cur_pos s = cur_pos t \<and> cout s = cout t \<and>
      (\<forall>c. from_player_cost (table s c) = from_player_cost (table t c) \<and>
           to_target_cost (table s c) = to_target_cost (table t c) \<and>
           parent (table s c) = parent (table t c) \<and>
           dangerous_status (table s c) = dangerous_status (table t c) \<and>
           (cell_status (table s c) = CHR ''I'') = (cell_status (table t c) = CHR ''I'')))"

text \<open>What the second state's table and input took part in, for two runs side by side:
  \<open>stepped s t s' t'\<close> says that \<open>s'\<close> and \<open>t'\<close> agree in the sense of \<open>core_eq\<close>, that
  the table of \<open>t\<close> is unchanged and that both runs have read the same number of
  responses.\<close>

definition stepped :: "astar_state \<Rightarrow> astar_state \<Rightarrow> astar_state \<Rightarrow> astar_state \<Rightarrow> bool" where
  "stepped s t s' t' =
     (core_eq s' t' \<and> table t' = table t \<and>
      (\<exists>k. cin s' = drop k (cin s) \<and> cin t' = drop k (cin t)))"

text \<open>
  Two runs side by side: the states agree in the sense of \<open>core_eq\<close>, the inputs still to
  be read are related by \<open>Q\<close>, and the table of the second run satisfies \<open>J\<close>.
  \<open>sim_ok\<close> collects what \<open>Q\<close> and \<open>J\<close> must provide for the relation to be kept by a
  pass of the loop when the first run has the perception flag \<open>f\<close> and the second \<open>f'\<close>.
\<close>

definition sim ::
    "(response list \<Rightarrow> response list \<Rightarrow> bool) \<Rightarrow> (game_table \<Rightarrow> bool) \<Rightarrow>
     astar_state \<Rightarrow> astar_state \<Rightarrow> bool" where
  "sim Q J s t = (core_eq s t \<and> Q (cin s) (cin t) \<and> J (table t))"

definition sim_ok ::
    "(response list \<Rightarrow> response list \<Rightarrow> bool) \<Rightarrow> (game_table \<Rightarrow> bool) \<Rightarrow> int \<Rightarrow> int \<Rightarrow> bool" where
  "sim_ok Q J f f' =
     ((\<forall>a b k. Q a b \<longrightarrow> Q (drop k a) (drop k b)) \<and>
      (\<forall>a b s t. Q a b \<and> core_eq s t \<and> J (table t) \<longrightarrow>
         rel_sum (=) (\<lambda>s' t'. core_eq s' t' \<and> J (table t') \<and> cin s' = cin s \<and> cin t' = cin t)
           (apply_events f s (fst (read_response a))) (apply_events f' t (fst (read_response b)))) \<and>
      (\<forall>tbl tbl'. (\<forall>c. cell_status (tbl' c) = cell_status (tbl c)) \<and> J tbl \<longrightarrow> J tbl'))"

text \<open>
  A hazard-free oracle for the target \<open>target\<close>: every event it reports names a cell of
  the table, carries no hazard status, and carries the target marker exactly when it
  names the target cell. A hazard-free table has no dangerous cell and the target marker
  exactly on the target cell.
\<close>

definition benign_event :: "cell_ptr \<Rightarrow> event \<Rightarrow> bool" where
  "benign_event target ev =
     (case ev of (m, n, status) \<Rightarrow>
        in_borders n m \<and>
        status \<noteq> CHR ''P'' \<and> status \<noteq> CHR ''M'' \<and> status \<noteq> CHR ''H'' \<and> status \<noteq> CHR ''T'' \<and>
        ((status = CHR ''I'') = ((n, m) = target)))"

definition benign_input :: "cell_ptr \<Rightarrow> response list \<Rightarrow> bool" where
  "benign_input target inp = list_all (list_all (benign_event target)) inp"

definition hazard_free_table :: "cell_ptr \<Rightarrow> game_table \<Rightarrow> bool" where
  "hazard_free_table target tbl =
     (\<forall>c. \<not> dangerous_status (tbl c) \<and> ((cell_status (tbl c) = CHR ''I'') = (c = target)))"

text \<open>The run of the best-first program for the target \<open>(tn, tm)\<close> on a silent oracle
  ends with the result line that carries the grid distance from the start.\<close>

definition silent_run_ok :: "int \<Rightarrow> int \<Rightarrow> bool" where
  "silent_run_ok tn tm =
     (case astar_main 20 0 tm tn [] of
        Some (Inr out) \<Rightarrow>
          out \<noteq> [] \<and> last out = Exit (manhattan_distance 0 0 tn tm) \<and>
          list_all is_move (butlast out)
      | _ \<Rightarrow> False)"

text \<open>
  The costs of the table that \<open>backtracking_bfs\<close> receives: the exploration changes no
  cost, so they are those of \<open>bt_init_game_table\<close> for a target other than the start
  cell.
\<close>

definition costs_initial :: "bt_game_table \<Rightarrow> bool" where
  "costs_initial tbl =
     (bt_from_player_cost (tbl (0, 0)) = 0 \<and>
      (\<forall>c. c \<noteq> (0, 0) \<longrightarrow> bt_from_player_cost (tbl c) = INF_VAL))"

definition bfs_cost :: "bfs_state \<Rightarrow> cell_ptr \<Rightarrow> int" where
  "bfs_cost s c = bt_from_player_cost (bfs_table s c)"

text \<open>
  The invariant of the sweep while the neighbours of the dequeued cell \<open>cur\<close> are
  processed: the queue is sorted by cost and holds cells of the table at the cost of
  \<open>cur\<close> or one more; no visited cell costs more than \<open>cur\<close>; the costs of visited and
  queued cells are bounded by the number of visited cells and have the parity of their
  coordinates; every other cell still has the cost \<open>INF\<close>.
\<close>

definition bfs_inv :: "cell_ptr \<Rightarrow> bfs_state \<Rightarrow> bool" where
  "bfs_inv cur s =
     (cur \<in> bfs_visited s \<and> bfs_visited s \<subseteq> grid \<and> set (bfs_q s) \<subseteq> grid \<and>
      sorted (map (bfs_cost s) (bfs_q s)) \<and>
      (\<forall>c\<in>set (bfs_q s). bfs_cost s cur \<le> bfs_cost s c \<and> bfs_cost s c \<le> bfs_cost s cur + 1) \<and>
      (\<forall>c\<in>bfs_visited s. bfs_cost s c \<le> bfs_cost s cur
                           \<and> bfs_cost s c < int (card (bfs_visited s))) \<and>
      (\<forall>c\<in>set (bfs_q s). bfs_cost s c \<le> int (card (bfs_visited s))) \<and>
      (\<forall>c\<in>bfs_visited s \<union> set (bfs_q s). even (bfs_cost s c + fst c + snd c)) \<and>
      (\<forall>c. c \<notin> bfs_visited s \<and> c \<notin> set (bfs_q s) \<longrightarrow> bfs_cost s c = INF_VAL))"

text \<open>The invariant at the top of the loop: it holds once the head of the queue has
  been dequeued.\<close>

definition bfs_top :: "bfs_state \<Rightarrow> bool" where
  "bfs_top s = (\<forall>cur rest. bfs_q s = cur # rest \<longrightarrow> bfs_inv cur (bfs_pop cur rest s))"

section \<open>Path and ancestor utilities\<close>

text \<open>
  Claim C2. The claim: for two cells whose parent chains end at the start cell,
  \<open>least_common_ancestor\<close> returns the deepest cell common to both chains, and
  \<open>least_common_ancestor a a = a\<close>. The program scans the path of \<open>first\<close> from the root
  end and returns the first hit, which is the root. After the first pass of the
  best-first loop on a silent oracle (target \<open>(3, 3)\<close>), the cell \<open>(0, 1)\<close> has the start
  cell as its parent; there \<open>least_common_ancestor\<close> of \<open>(0, 1)\<close> with itself is the start
  cell \<open>(0, 0)\<close>, while the deepest common cell is \<open>(0, 1)\<close>.
\<close>

theorem least_common_ancestor_self_is_root:
  "(case init_game_table 3 3 of
      Inl e \<Rightarrow> False
    | Inr tbl \<Rightarrow>
        (case after_passes 1 3 3 0 (initial_state tbl []) of
           None \<Rightarrow> False
         | Some s \<Rightarrow>
             parent (table s (0, 1)) = Some (0, 0) \<and>
             least_common_ancestor (table s) (0, 1) (0, 1) = Some (Some (0, 0)) \<and>
             spec_deepest_common_ancestor (table s) (0, 1) (0, 1) = Some (Some (0, 1))))"
  by code_simp

section \<open>The best-first engine: extraction\<close>

text \<open>
  Claim C4. The claim: the inner extract-minimum loop never extracts from an empty
  frontier. The loop of the program has no emptiness test: when every cell left in the
  open set is closed, it erases them all and then dereferences \<^verbatim>\<open>open.begin()\<close> of the
  empty set. With target \<open>(8, 8)\<close>, a silent first response and a second response that
  reports hazards at \<open>(1, 0)\<close>, \<open>(0, 2)\<close> and \<open>(1, 1)\<close> while the agent stands on \<open>(0, 1)\<close>,
  the open set holds only the closed cell \<open>(1, 0)\<close> at the top of the third pass, and the
  run ends in the fault.
\<close>

theorem extraction_from_empty_frontier:
  "astar_main 40 0 8 8 [[], [(0, 1, CHR ''P''), (2, 0, CHR ''P''), (1, 1, CHR ''P'')]]
     = Some (Inl EmptyFrontier)"
  by code_simp

section \<open>The best-first engine: reconciliation\<close>

subsection \<open>Walks along parent chains\<close>

lemma read_response_snd: "snd (read_response inp) = drop 1 inp"
  by (cases inp) (simp_all add: read_response_def)

lemma path_None [simp]: "path tbl None = Some []"
  by (subst path.simps) simp

lemma path_Some_iff:
  "path tbl (Some c) = Some p \<longleftrightarrow> (\<exists>r. p = c # r \<and> path tbl (parent (tbl c)) = Some r)"
  by (subst path.simps) (auto simp: bind_eq_Some_conv)

lemma path_Some_None_iff:
  "path tbl (Some c) = None \<longleftrightarrow> path tbl (parent (tbl c)) = None"
  by (subst path.simps) (auto simp: bind_eq_None_conv)

lemma path_parent_mono:
  "path tbl c = Some p \<Longrightarrow> (\<And>x. parent (tbl' x) = parent (tbl x)) \<Longrightarrow> path tbl' c = Some p"
proof (induction p arbitrary: c)
  case Nil
  then show ?case by (cases c) (auto simp: path_Some_iff)
next
  case (Cons a p)
  then show ?case by (cases c) (auto simp: path_Some_iff)
qed

lemma path_parent_cong:
  assumes "\<And>x. parent (tbl' x) = parent (tbl x)"
  shows "path tbl' c = path tbl c"
proof (cases "path tbl c")
  case None
  show ?thesis
  proof (cases "path tbl' c")
    case (Some p)
    from path_parent_mono[OF Some, of tbl] assms None show ?thesis by simp
  qed (simp add: None)
next
  case (Some p)
  from path_parent_mono[OF Some, of tbl'] assms show ?thesis by (simp add: Some)
qed

lemma stupid_move_simps [simp]:
  "table (stupid_move c s) = table s"
  "open_pq (stupid_move c s) = open_pq s"
  "closed (stupid_move c s) = closed s"
  "has_shield (stupid_move c s) = has_shield s"
  "cur_pos (stupid_move c s) = c"
  "cin (stupid_move c s) = drop 1 (cin s)"
  "cout (stupid_move c s) = cout s @ [Move (snd c) (fst c)]"
  by (simp_all add: stupid_move_def read_response_snd)

lemma walked_Nil [simp]: "walked [] s = s"
  by (simp add: walked_def)

lemma walked_Cons: "walked (c # cs) s = walked cs (stupid_move c s)"
  by (simp add: walked_def stupid_move_def read_response_snd)

lemma return_to_start_path:
  "path (table s) (Some (cur_pos s)) = Some pc \<Longrightarrow> return_to_start s = Some (walked (tl pc) s)"
proof (induction pc arbitrary: s)
  case Nil
  then show ?case by (simp add: path_Some_iff)
next
  case (Cons a pc)
  then have a: "a = cur_pos s" and r: "path (table s) (parent (table s (cur_pos s))) = Some pc"
    by (auto simp: path_Some_iff)
  show ?case
  proof (cases "parent (table s (cur_pos s))")
    case None
    with r have "pc = []" by simp
    with None show ?thesis by (subst return_to_start.simps) simp
  next
    case (Some p)
    with r have "path (table (stupid_move p s)) (Some (cur_pos (stupid_move p s))) = Some pc"
      by simp
    from Cons.IH[OF this] have "return_to_start (stupid_move p s) = Some (walked (tl pc) (stupid_move p s))" .
    moreover from r Some obtain r' where "pc = p # r'" by (auto simp: path_Some_iff)
    ultimately show ?thesis using Some
      by (subst return_to_start.simps) (simp add: walked_Cons)
  qed
qed

lemma return_to_start_Some_path:
  "return_to_start s = Some s' \<Longrightarrow> \<exists>pc. path (table s) (Some (cur_pos s)) = Some pc"
proof (induction rule: return_to_start.raw_induct[rotated 1, consumes 1])
  case (1 rts s s')
  show ?case
  proof (cases "parent (table s (cur_pos s))")
    case None
    then show ?thesis by (simp add: path_Some_iff)
  next
    case (Some p)
    with 1(2) have "rts (stupid_move p s) = Some s'" by simp
    from 1(1)[OF this] obtain pc where "path (table s) (Some p) = Some pc" by auto
    with Some show ?thesis by (auto simp: path_Some_iff)
  qed
qed

lemma return_to_start_eq:
  "return_to_start s =
     (case path (table s) (Some (cur_pos s)) of None \<Rightarrow> None | Some pc \<Rightarrow> Some (walked (tl pc) s))"
proof (cases "path (table s) (Some (cur_pos s))")
  case None
  then show ?thesis using return_to_start_Some_path[of s] by (cases "return_to_start s") auto
next
  case (Some pc)
  then show ?thesis by (simp add: return_to_start_path)
qed

lemma walk_step_eq:
  "walk_step s c =
     (stupid_move c s)\<lparr>has_shield := has_shield s \<or> cell_status (table s c) = CHR ''S''\<rparr>"
  by (simp add: walk_step_def Let_def)

lemma foldl_walk_step:
  "foldl walk_step s cs =
     (walked cs s)\<lparr>has_shield := has_shield s \<or> (\<exists>c\<in>set cs. cell_status (table s c) = CHR ''S'')\<rparr>"
proof (induction cs arbitrary: s)
  case Nil
  then show ?case by simp
next
  case (Cons c cs)
  have "foldl walk_step s (c # cs) = foldl walk_step (walk_step s c) cs" by simp
  also have "\<dots> = (walked cs (walk_step s c))\<lparr>has_shield := has_shield (walk_step s c) \<or>
        (\<exists>x\<in>set cs. cell_status (table (walk_step s c) x) = CHR ''S'')\<rparr>"
    by (rule Cons.IH)
  also have "\<dots> = (walked (c # cs) s)\<lparr>has_shield := has_shield s \<or>
        (\<exists>x\<in>set (c # cs). cell_status (table s x) = CHR ''S'')\<rparr>"
    by (simp add: walk_step_eq walked_def disj_assoc)
  finally show ?case .
qed

lemma path_last_root:
  "path tbl (Some c) = Some pc \<Longrightarrow> parent (tbl (last pc)) = None"
proof (induction pc arbitrary: c)
  case Nil
  then show ?case by (simp add: path_Some_iff)
next
  case (Cons a pc)
  then have a: "a = c" and r: "path tbl (parent (tbl c)) = Some pc"
    by (auto simp: path_Some_iff)
  show ?case
  proof (cases "parent (tbl c)")
    case None
    with r a show ?thesis by simp
  next
    case (Some p)
    with r have "path tbl (Some p) = Some pc" by simp
    moreover from this have "pc \<noteq> []" by (auto simp: path_Some_iff)
    ultimately show ?thesis using Cons.IH by simp
  qed
qed

subsection \<open>Where the backtrack ends\<close>

text \<open>
  Claim C1, as the specification states it: when the extracted cell is not adjacent to the
  current position, the agent steps back along its parent chain until it stands on the
  least common ancestor of the current position and the extracted cell, and not further.
  In the run \<open>detour_run\<close> the agent stands on \<open>(0, 3)\<close>, the extracted cell is \<open>(1, 2)\<close>,
  and the deepest cell common to both chains is \<open>(0, 2)\<close>; the backtrack of the program
  passes \<open>(0, 2)\<close> and \<open>(0, 1)\<close> and ends on the start cell \<open>(0, 0)\<close>, from where the agent
  walks forward again through \<open>(0, 1)\<close> to \<open>(0, 2)\<close>.
\<close>

theorem backtrack_continues_to_start:
  "(case detour_run of
      None \<Rightarrow> False
    | Some s \<Rightarrow>
        cur_pos s = (0, 3) \<and>
        extract_best (closed s) (open_pq s) = Inr ((1, 2), []) \<and>
        \<not> neighbour (cur_pos s) (1, 2) \<and>
        spec_deepest_common_ancestor (table s) (cur_pos s) (1, 2) = Some (Some (0, 2)) \<and>
        map_option cur_pos (return_to_start s) = Some (0, 0) \<and>
        map_option (map_sum id (\<lambda>s'. drop (length (cout s)) (cout s'))) (reconcile (1, 2) s)
          = Some (Inr [Move 2 0, Move 1 0, Move 0 0, Move 1 0, Move 2 0]))"
  by code_simp

text \<open>
  Claim C1, amended. \<open>launch_a_star\<close> calls \<open>return_to_start\<close>, not \<open>return_to_lca\<close>:
  whenever the extracted cell \<open>best\<close> is not adjacent to the current position, and the
  parent chains of the current position and of the parent of \<open>best\<close> are finite (\<open>pc\<close> and
  \<open>pb\<close>, the latter not empty), the agent steps back along \<open>pc\<close> until it stands on the
  last cell of \<open>pc\<close>, the one without a parent; the shield flag is reset; then the agent
  steps forward along \<open>pb\<close> from the cell after its root to the parent of \<open>best\<close>,
  and holds the shield afterwards exactly when one of these cells has the status \<open>S\<close>.
  Table, open set and closed set are unchanged.
\<close>

theorem reconcile_returns_to_start:
  assumes far: "\<not> neighbour (cur_pos s) best"
    and pc: "path (table s) (Some (cur_pos s)) = Some pc"
    and pb: "path (table s) (parent (table s best)) = Some pb"
    and ne: "pb \<noteq> []"
  shows "\<exists>s1 s2. return_to_start s = Some s1 \<and> cur_pos s1 = last pc
           \<and> parent (table s (last pc)) = None
           \<and> cout s1 = cout s @ map (\<lambda>c. Move (snd c) (fst c)) (tl pc)
           \<and> reconcile best s = Some (Inr s2)
           \<and> cout s2 = cout s1 @ map (\<lambda>c. Move (snd c) (fst c)) (tl (rev pb))
           \<and> cur_pos s2 = last (last pc # tl (rev pb))
           \<and> has_shield s2 = (\<exists>c\<in>set (tl (rev pb)). cell_status (table s c) = CHR ''S'')
           \<and> table s2 = table s \<and> open_pq s2 = open_pq s \<and> closed s2 = closed s"
proof -
  have rts: "return_to_start s = Some (walked (tl pc) s)"
    using pc by (rule return_to_start_path)
  have last_pc: "parent (table s (last pc)) = None"
    using pc by (rule path_last_root)
  from pc obtain r where pcr: "pc = cur_pos s # r" by (auto simp: path_Some_iff)
  from ne obtain root rest where rv: "rev pb = root # rest" by (cases "rev pb") auto
  let ?s1 = "walked (tl pc) s"
  have tbl1: "table (?s1\<lparr>has_shield := False\<rparr>) = table s" by (simp add: walked_def)
  have "reconcile best s = Some (Inr (foldl walk_step (?s1\<lparr>has_shield := False\<rparr>) rest))"
    using far rts pb rv by (simp add: reconcile_def stupid_move_to_known_target_def walked_def)
  then show ?thesis using rts last_pc rv pcr
    by (simp add: foldl_walk_step) (simp add: walked_def)
qed

theorem reconcile_returns_to_start_witness:
  "(case detour_run of
      None \<Rightarrow> False
    | Some s \<Rightarrow>
        \<not> neighbour (cur_pos s) (1, 2) \<and>
        path (table s) (Some (cur_pos s)) = Some [(0, 3), (0, 2), (0, 1), (0, 0)] \<and>
        path (table s) (parent (table s (1, 2))) = Some [(0, 2), (0, 1), (0, 0)] \<and>
        map_option cur_pos (return_to_start s) = Some (0, 0) \<and>
        map_option (map_sum id cur_pos) (reconcile (1, 2) s) = Some (Inr (0, 2)))"
proof -
  have ex: "detour_run \<noteq> None" by code_simp
  then obtain s where s: "detour_run = Some s" by auto
  have the_s: "s = the detour_run" unfolding s by simp
  have far: "\<not> neighbour (cur_pos s) (1, 2)"
    unfolding the_s by code_simp
  have pc: "path (table s) (Some (cur_pos s)) = Some [(0, 3), (0, 2), (0, 1), (0, 0)]"
    unfolding the_s by code_simp
  have pb: "path (table s) (parent (table s (1, 2))) = Some [(0, 2), (0, 1), (0, 0)]"
    unfolding the_s by code_simp
  from reconcile_returns_to_start [OF far pc pb]
  show ?thesis unfolding s using far pc pb by auto
qed

section \<open>The interaction boundary\<close>

subsection \<open>What the response loops change\<close>

lemma apply_event_frame:
  assumes "apply_event thanos_mode s ev = Inr s'"
  shows "cell_status (table s' c) = reported_status [ev] c (cell_status (table s c))
    \<and> from_player_cost (table s' c) = from_player_cost (table s c)
    \<and> to_target_cost (table s' c) = to_target_cost (table s c)
    \<and> parent (table s' c) = parent (table s c)
    \<and> cin s' = cin s \<and> cout s' = cout s \<and> cur_pos s' = cur_pos s
    \<and> open_pq s' = open_pq s"
  using assms
  by (auto simp: apply_event_def Let_def split: prod.splits if_splits)

lemma apply_events_frame:
  assumes "apply_events thanos_mode s evs = Inr s'"
  shows "cell_status (table s' c) = reported_status evs c (cell_status (table s c))
    \<and> from_player_cost (table s' c) = from_player_cost (table s c)
    \<and> to_target_cost (table s' c) = to_target_cost (table s c)
    \<and> parent (table s' c) = parent (table s c)
    \<and> cin s' = cin s \<and> cout s' = cout s \<and> cur_pos s' = cur_pos s \<and> open_pq s' = open_pq s"
  using assms
proof (induction evs arbitrary: s)
  case Nil
  then show ?case by simp
next
  case (Cons ev evs)
  from Cons.prems obtain s1 where s1: "apply_event thanos_mode s ev = Inr s1"
    and rest: "apply_events thanos_mode s1 evs = Inr s'"
    by (auto split: sum.splits)
  from Cons.IH[OF rest] apply_event_frame[OF s1, of c]
  show ?case by (simp split: prod.splits)
qed

lemma bt_apply_event_frame:
  assumes "bt_apply_event s ev = Inr s'"
  shows "bt_cell_status (btable s' c) = reported_status [ev] c (bt_cell_status (btable s c))
    \<and> bt_from_player_cost (btable s' c) = bt_from_player_cost (btable s c)
    \<and> bt_cin s' = bt_cin s \<and> bt_cout s' = bt_cout s \<and> visited s' = visited s
    \<and> dfs_calls s' = dfs_calls s \<and> bt_has_shield s' = bt_has_shield s"
  using assms
  by (auto simp: bt_apply_event_def Let_def split: prod.splits if_splits)

lemma bt_apply_events_frame:
  assumes "bt_apply_events s evs = Inr s'"
  shows "bt_cell_status (btable s' c) = reported_status evs c (bt_cell_status (btable s c))
    \<and> bt_from_player_cost (btable s' c) = bt_from_player_cost (btable s c)
    \<and> bt_cin s' = bt_cin s \<and> bt_cout s' = bt_cout s \<and> visited s' = visited s
    \<and> dfs_calls s' = dfs_calls s \<and> bt_has_shield s' = bt_has_shield s"
  using assms
proof (induction evs arbitrary: s)
  case Nil
  then show ?case by simp
next
  case (Cons ev evs)
  from Cons.prems obtain s1 where s1: "bt_apply_event s ev = Inr s1"
    and rest: "bt_apply_events s1 evs = Inr s'"
    by (auto split: sum.splits)
  from Cons.IH[OF rest] bt_apply_event_frame[OF s1, of c]
  show ?case by (simp split: prod.splits)
qed

lemma read_response_eq: "read_response inp = (case inp of [] \<Rightarrow> [] | r # rs \<Rightarrow> r, drop 1 inp)"
  by (cases inp) (simp_all add: read_response_def)

lemma update_then_check_cell_frame:
  "cin (update_then_check_cell cur tn tm cn cm s) = cin s
   \<and> cout (update_then_check_cell cur tn tm cn cm s) = cout s
   \<and> cur_pos (update_then_check_cell cur tn tm cn cm s) = cur_pos s
   \<and> closed (update_then_check_cell cur tn tm cn cm s) = closed s
   \<and> has_shield (update_then_check_cell cur tn tm cn cm s) = has_shield s
   \<and> cell_status (table (update_then_check_cell cur tn tm cn cm s) x) = cell_status (table s x)
   \<and> possibly_picked_by (table (update_then_check_cell cur tn tm cn cm s) x)
        = possibly_picked_by (table s x)"
  by (simp add: update_then_check_cell_def Let_def)

lemma open_neighbours_frame:
  "cin (open_neighbours cur tn tm s) = cin s
   \<and> cout (open_neighbours cur tn tm s) = cout s
   \<and> cur_pos (open_neighbours cur tn tm s) = cur_pos s
   \<and> closed (open_neighbours cur tn tm s) = closed s
   \<and> has_shield (open_neighbours cur tn tm s) = has_shield s
   \<and> cell_status (table (open_neighbours cur tn tm s) x) = cell_status (table s x)
   \<and> possibly_picked_by (table (open_neighbours cur tn tm s) x)
        = possibly_picked_by (table s x)"
  unfolding open_neighbours_def Let_def
  by (simp add: update_then_check_cell_frame)

lemma move_then_update_response:
  assumes m: "move_then_update c tn tm thanos_mode s = Inr (found, s')"
    and ni: "cell_status (table s c) \<noteq> CHR ''I''"
  shows "cin s' = drop 1 (cin s) \<and>
     cell_status (table s' x) =
       reported_status (fst (read_response (cin s))) x (cell_status (table s x))"
proof -
  let ?s3 = "(if cell_status (table s c) = CHR ''S''
      then s\<lparr>cout := cout s @ [Move (snd c) (fst c)], cur_pos := c, closed := insert c (closed s), has_shield := True\<rparr>
      else s\<lparr>cout := cout s @ [Move (snd c) (fst c)], cur_pos := c, closed := insert c (closed s)\<rparr>)
      \<lparr>cin := drop 1 (cin s)\<rparr>"
  from m ni obtain s4 where ev: "apply_events thanos_mode ?s3 (fst (read_response (cin s))) = Inr s4"
    and s': "s' = open_neighbours c tn tm s4"
    by (auto simp: move_then_update_def Let_def read_response_eq split: sum.splits if_splits)
  from apply_events_frame[OF ev, of x] show ?thesis
    by (simp add: s' open_neighbours_frame split: if_splits)
qed

subsection \<open>Steps and their responses\<close>

text \<open>
  Claim C8, as the specification states it: every physical step, also those of the
  backtrack and of the forward walk, applies each reported status to its grid cell. In
  the run \<open>detour_run\<close> the first step of the backtrack goes from \<open>(0, 3)\<close> to its parent
  \<open>(0, 2)\<close> by \<open>stupid_move\<close>; the response to it reports a hazard at \<open>(1, 2)\<close>. The
  response is consumed and the status of \<open>(1, 2)\<close> stays what it was.
\<close>

theorem backtrack_step_drops_report:
  "(case detour_run of
      None \<Rightarrow> False
    | Some s \<Rightarrow>
        parent (table s (cur_pos s)) = Some (0, 2) \<and>
        fst (read_response (cin s)) = [(2, 1, CHR ''P'')] \<and>
        cin (stupid_move (0, 2) s) = [] \<and>
        cell_status (table (stupid_move (0, 2) s) (1, 2)) = CHR 0x00 \<and>
        \<not> dangerous_status (table (stupid_move (0, 2) s) (1, 2)))"
  by code_simp

text \<open>
  Claim C8, amended. Every step reads one whole response, except the best-first engine's
  step onto a cell marked as the target, which returns before reading. The steps made by
  \<open>stupid_move\<close> (backtrack, forward walk, the return to the parent in the exhaustive
  engine) drop the response and leave the table as it is. The steps made by
  \<open>move_then_update\<close> give every cell the status of the last event that names it. The
  response loops of both engines change no \<open>from_player_cost\<close> and no \<open>parent\<close>.
\<close>

theorem step_response_handling:
  "table (stupid_move c s) = table s \<and> cin (stupid_move c s) = drop 1 (cin s)
   \<and> btable (bt_stupid_move c b) = btable b \<and> bt_cin (bt_stupid_move c b) = drop 1 (bt_cin b)
   \<and> (cell_status (table s t) = CHR ''I'' \<longrightarrow>
        (\<exists>s'. move_then_update t inf_stone_n inf_stone_m thanos_mode s = Inr (True, s')
           \<and> table s' = table s \<and> cin s' = cin s))
   \<and> (\<forall>found s'. cell_status (table s c) \<noteq> CHR ''I''
          \<and> move_then_update c inf_stone_n inf_stone_m thanos_mode s = Inr (found, s') \<longrightarrow>
        cin s' = drop 1 (cin s)
        \<and> (\<forall>x. cell_status (table s' x) =
                 reported_status (fst (read_response (cin s))) x (cell_status (table s x))))
   \<and> (\<forall>s'. apply_events thanos_mode s evs = Inr s' \<longrightarrow>
        (\<forall>x. cell_status (table s' x) = reported_status evs x (cell_status (table s x))
           \<and> from_player_cost (table s' x) = from_player_cost (table s x)
           \<and> parent (table s' x) = parent (table s x)))
   \<and> (\<forall>r b'. bt_move_then_update c thanos_mode b = Inr (r, b') \<longrightarrow>
        bt_cin b' = drop 1 (bt_cin b)
        \<and> (\<forall>x. bt_cell_status (btable b' x) =
                 reported_status (fst (read_response (bt_cin b))) x (bt_cell_status (btable b x))
              \<and> bt_from_player_cost (btable b' x) = bt_from_player_cost (btable b x)))"
proof (intro conjI allI impI)
  show "table (stupid_move c s) = table s" by (simp add: stupid_move_def)
  show "cin (stupid_move c s) = drop 1 (cin s)" by (simp add: stupid_move_def read_response_eq)
  show "btable (bt_stupid_move c b) = btable b" by (simp add: bt_stupid_move_def)
  show "bt_cin (bt_stupid_move c b) = drop 1 (bt_cin b)"
    by (simp add: bt_stupid_move_def read_response_eq)
next
  assume "cell_status (table s t) = CHR ''I''"
  then show "\<exists>s'. move_then_update t inf_stone_n inf_stone_m thanos_mode s = Inr (True, s')
           \<and> table s' = table s \<and> cin s' = cin s"
    by (simp add: move_then_update_def Let_def)
next
  fix found s'
  assume a: "cell_status (table s c) \<noteq> CHR ''I''
          \<and> move_then_update c inf_stone_n inf_stone_m thanos_mode s = Inr (found, s')"
  then have m: "move_then_update c inf_stone_n inf_stone_m thanos_mode s = Inr (found, s')"
    and ni: "cell_status (table s c) \<noteq> CHR ''I''" by simp_all
  from move_then_update_response[OF m ni] show "cin s' = drop 1 (cin s)" by simp
  fix x
  from move_then_update_response[OF m ni, of x]
  show "cell_status (table s' x) =
          reported_status (fst (read_response (cin s))) x (cell_status (table s x))" by simp
next
  fix s' x assume "apply_events thanos_mode s evs = Inr s'"
  from apply_events_frame[OF this, of x]
  show "cell_status (table s' x) = reported_status evs x (cell_status (table s x))"
    and "from_player_cost (table s' x) = from_player_cost (table s x)"
    and "parent (table s' x) = parent (table s x)" by simp_all
next
  fix r b' assume m: "bt_move_then_update c thanos_mode b = Inr (r, b')"
  let ?b2 = "(if bt_cell_status (btable b c) = CHR ''S''
      then b\<lparr>bt_cout := bt_cout b @ [Move (snd c) (fst c)], visited := insert c (visited b), bt_has_shield := True\<rparr>
      else b\<lparr>bt_cout := bt_cout b @ [Move (snd c) (fst c)], visited := insert c (visited b)\<rparr>)
      \<lparr>bt_cin := drop 1 (bt_cin b)\<rparr>"
  from m have ev: "bt_apply_events ?b2 (fst (read_response (bt_cin b))) = Inr b'"
    by (auto simp: bt_move_then_update_def Let_def read_response_eq split: sum.splits if_splits)
  from bt_apply_events_frame[OF ev]
  show "bt_cin b' = drop 1 (bt_cin b)" by simp
  fix x
  from bt_apply_events_frame[OF ev, of x]
  show "bt_cell_status (btable b' x) =
                 reported_status (fst (read_response (bt_cin b))) x (bt_cell_status (btable b x))"
   and "bt_from_player_cost (btable b' x) = bt_from_player_cost (btable b x)"
    by (simp_all split: if_splits)
qed

theorem step_response_handling_witness:
  "(case detour_run of
      None \<Rightarrow> False
    | Some s \<Rightarrow>
        cell_status (table s (2, 4)) = CHR ''I'' \<and>
        cell_status (table s (1, 2)) \<noteq> CHR ''I'' \<and>
        (case move_then_update (1, 2) 2 4 0 s of
           Inl e \<Rightarrow> False
         | Inr (found, s') \<Rightarrow> cin s' = [] \<and> cell_status (table s' (1, 2)) = CHR ''P'') \<and>
        (case apply_events 0 s [(2, 1, CHR ''P'')] of
           Inl e \<Rightarrow> False
         | Inr s' \<Rightarrow> cell_status (table s' (1, 2)) = CHR ''P''
                    \<and> from_player_cost (table s' (1, 2)) = 3
                    \<and> parent (table s' (1, 2)) = Some (0, 2)) \<and>
        (case bt_move_then_update (0, 0) 0 bt_blank_state of
           Inl e \<Rightarrow> False
         | Inr (r, b') \<Rightarrow> bt_cin b' = [] \<and> bt_cell_status (btable b' (1, 2)) = CHR ''P''
                    \<and> bt_from_player_cost (btable b' (1, 2)) = INF_VAL))"
proof -
  have ex: "detour_run \<noteq> None" by code_simp
  then obtain s where s: "detour_run = Some s" by auto
  have the_s: "s = the detour_run" unfolding s by simp
  have h1: "cell_status (table s (2, 4)) = CHR ''I''" unfolding the_s by code_simp
  have h2: "cell_status (table s (1, 2)) \<noteq> CHR ''I''" unfolding the_s by code_simp
  have c0: "cin s = [[(2, 1, CHR ''P'')]]" unfolding the_s by code_simp
  have st: "cell_status (table s (1, 2)) = CHR 0x00" unfolding the_s by code_simp
  have fp: "from_player_cost (table s (1, 2)) = 3" unfolding the_s by code_simp
  have pa: "parent (table s (1, 2)) = Some (0, 2)" unfolding the_s by code_simp
  have h3: "\<not> isl (move_then_update (1, 2) 2 4 0 s)" unfolding the_s by code_simp
  have h4: "\<not> isl (apply_events 0 s [(2, 1, CHR ''P'')])" unfolding the_s by code_simp
  have h5: "\<not> isl (bt_move_then_update (0, 0) 0 bt_blank_state)" by code_simp
  have b0: "bt_cin bt_blank_state = [[(2, 1, CHR ''P'')]]" by code_simp
  have b1: "bt_from_player_cost (btable bt_blank_state (1, 2)) = INF_VAL" by code_simp
  from h3 obtain found s1 where m1: "move_then_update (1, 2) 2 4 0 s = Inr (found, s1)"
    by (cases "move_then_update (1, 2) 2 4 0 s") auto
  from h4 obtain s2 where m2: "apply_events 0 s [(2, 1, CHR ''P'')] = Inr s2"
    by (cases "apply_events 0 s [(2, 1, CHR ''P'')]") auto
  from h5 obtain r b' where m3: "bt_move_then_update (0, 0) 0 bt_blank_state = Inr (r, b')"
    by (cases "bt_move_then_update (0, 0) 0 bt_blank_state") auto
  note T = step_response_handling [of "(1, 2)" s bt_blank_state "(2, 4)" 2 4 0 "[(2, 1, CHR ''P'')]"]
  have a1: "cin s1 = [] \<and> cell_status (table s1 (1, 2)) = CHR ''P''"
    using T h2 m1 c0 by (simp add: read_response_def)
  have a2: "cell_status (table s2 (1, 2)) = CHR ''P''
                    \<and> from_player_cost (table s2 (1, 2)) = 3
                    \<and> parent (table s2 (1, 2)) = Some (0, 2)"
    using T m2 fp pa by simp
  have T3: "bt_move_then_update (0, 0) 0 bt_blank_state = Inr (r, b') \<longrightarrow>
        bt_cin b' = drop 1 (bt_cin bt_blank_state)
        \<and> (\<forall>x. bt_cell_status (btable b' x) =
                 reported_status (fst (read_response (bt_cin bt_blank_state))) x (bt_cell_status (btable bt_blank_state x))
              \<and> bt_from_player_cost (btable b' x) = bt_from_player_cost (btable bt_blank_state x))"
    using step_response_handling [of "(0, 0)" s bt_blank_state "(2, 4)" 2 4 0 "[]"] by blast
  have a3: "bt_cin b' = [] \<and> bt_cell_status (btable b' (1, 2)) = CHR ''P''
                    \<and> bt_from_player_cost (btable b' (1, 2)) = INF_VAL"
    using T3 m3 b0 b1 by (simp add: read_response_def)
  show ?thesis unfolding s using h1 h2 a1 a2 a3 m1 m2 m3 by simp
qed

section \<open>The best-first engine: open and closed sets\<close>

subsection \<open>The closed set only grows\<close>

lemma less_cell_equiv: "\<not> less_cell tbl c x \<Longrightarrow> \<not> less_cell tbl x c \<Longrightarrow> x = c"
  by (cases x; cases c) (auto simp: less_cell_def split: if_splits)

lemma pq_insert_mem: "c \<in> set (pq_insert tbl c xs)"
  by (induction xs) (auto dest: less_cell_equiv)

lemma set_pq_insert: "set (pq_insert tbl c xs) = insert c (set xs)"
  by (induction xs) (auto dest: less_cell_equiv)

lemma less_cell_irrefl [simp]: "\<not> less_cell tbl c c"
  by (simp add: less_cell_def)

lemma set_pq_erase: "set (pq_erase tbl c xs) = set xs - {c}"
  by (auto simp: pq_erase_def dest: less_cell_equiv)

lemma extract_best_fresh:
  "extract_best cl q = Inr (best, rest) \<Longrightarrow> best \<notin> cl \<and> best \<in> set q \<and> set rest \<subseteq> set q"
  by (induction q) (auto split: if_splits)

lemma apply_event_closed:
  "apply_event thanos_mode s ev = Inr s' \<Longrightarrow> closed s \<subseteq> closed s'"
  by (auto simp: apply_event_def Let_def split: prod.splits if_splits)

lemma apply_events_closed:
  "apply_events thanos_mode s evs = Inr s' \<Longrightarrow> closed s \<subseteq> closed s'"
proof (induction evs arbitrary: s)
  case Nil
  then show ?case by simp
next
  case (Cons ev evs)
  from Cons.prems obtain s1 where s1: "apply_event thanos_mode s ev = Inr s1"
    and rest: "apply_events thanos_mode s1 evs = Inr s'"
    by (auto split: sum.splits)
  from Cons.IH[OF rest] apply_event_closed[OF s1] show ?case by blast
qed

lemma apply_event_hazard_closed:
  "apply_event thanos_mode s (m, n, status) = Inr s' \<Longrightarrow>
   status \<in> {CHR ''P'', CHR ''M'', CHR ''H'', CHR ''T''} \<Longrightarrow> (n, m) \<in> closed s'"
  by (auto simp: apply_event_def Let_def dangerous_status_def split: if_splits)

lemma open_neighbours_closed [simp]: "closed (open_neighbours cur tn tm s) = closed s"
  by (simp add: open_neighbours_frame)

lemma move_then_update_closed:
  assumes "move_then_update c tn tm thanos_mode s = Inr (found, s')"
  shows "closed s \<subseteq> closed s'"
proof (cases "cell_status (table s c) = CHR ''I''")
  case True
  with assms show ?thesis by (auto simp: move_then_update_def Let_def)
next
  case False
  with assms obtain s3 s4 where "apply_events thanos_mode s3 (fst (read_response (cin s))) = Inr s4"
    and "closed s3 = insert c (closed s)" and "s' = open_neighbours c tn tm s4"
    by (auto simp: move_then_update_def Let_def split: if_splits sum.splits)
  then show ?thesis using apply_events_closed by fastforce
qed

lemma foldl_walk_step_closed [simp]: "closed (foldl walk_step s cs) = closed s"
  by (induction cs arbitrary: s) (simp_all add: walk_step_def Let_def stupid_move_def)

lemma return_to_start_closed:
  "return_to_start s = Some s' \<Longrightarrow> closed s' = closed s"
proof (induction rule: return_to_start.raw_induct[rotated 1, consumes 1])
  case (1 rts s s')
  then show ?case
    by (cases "parent (table s (cur_pos s))") (auto simp: stupid_move_def)
qed

lemma reconcile_closed:
  assumes "reconcile best s = Some (Inr s')"
  shows "closed s' = closed s"
proof (cases "neighbour (cur_pos s) best")
  case True
  with assms show ?thesis by (simp add: reconcile_def)
next
  case False
  with assms obtain s1 where r: "return_to_start s = Some s1"
    and w: "stupid_move_to_known_target (parent (table s1 best)) (s1\<lparr>has_shield := False\<rparr>)
              = Some (Inr s')"
    by (auto simp: reconcile_def split: option.splits)
  from w have "closed s' = closed s1"
    by (auto simp: stupid_move_to_known_target_def split: option.splits list.splits)
  with return_to_start_closed[OF r] show ?thesis by simp
qed

lemma loop_body_cases:
  assumes "loop_body tn tm thanos_mode s = Some (Inr (found, s'))"
  obtains best rest s1 where "extract_best (closed s) (open_pq s) = Inr (best, rest)"
    and "reconcile best (s\<lparr>open_pq := rest\<rparr>) = Some (Inr s1)"
    and "move_then_update best tn tm thanos_mode s1 = Inr (found, s')"
  using assms
  by (auto simp: loop_body_def split: sum.splits option.splits prod.splits)

lemma loop_body_closed:
  assumes "loop_body tn tm thanos_mode s = Some (Inr (found, s'))"
  shows "closed s \<subseteq> closed s'"
proof -
  from assms obtain best rest s1 where "reconcile best (s\<lparr>open_pq := rest\<rparr>) = Some (Inr s1)"
    and "move_then_update best tn tm thanos_mode s1 = Inr (found, s')"
    by (rule loop_body_cases)
  from reconcile_closed[OF this(1)] move_then_update_closed[OF this(2)]
  show ?thesis by simp
qed

lemma after_passes_closed:
  "after_passes k tn tm thanos_mode s = Some s' \<Longrightarrow> closed s \<subseteq> closed s'"
proof (induction k arbitrary: s)
  case 0
  then show ?case by simp
next
  case (Suc k)
  from Suc.prems obtain s1 where b: "loop_body tn tm thanos_mode s = Some (Inr (False, s1))"
    and r: "after_passes k tn tm thanos_mode s1 = Some s'"
    by (auto split: if_splits option.splits sum.splits prod.splits bool.splits)
  from loop_body_closed[OF b] Suc.IH[OF r] show ?case by blast
qed

lemma update_then_check_cell_reopens:
  assumes "in_borders cn cm" "\<not> dangerous_status (table s (cn, cm))"
    and "from_player_cost (table s cur) + 1 < from_player_cost (table s (cn, cm))"
  shows "(cn, cm) \<in> set (open_pq (update_then_check_cell cur tn tm cn cm s))
    \<and> from_player_cost (table (update_then_check_cell cur tn tm cn cm s) (cn, cm))
        = from_player_cost (table s cur) + 1
    \<and> parent (table (update_then_check_cell cur tn tm cn cm s) (cn, cm)) = Some cur"
  using assms by (simp add: update_then_check_cell_def Let_def set_pq_insert)

lemma move_then_update_cur_pos:
  assumes "move_then_update c tn tm thanos_mode s = Inr (False, s')"
  shows "cur_pos s' = c"
proof -
  from assms have ni: "cell_status (table s c) \<noteq> CHR ''I''"
    by (auto simp: move_then_update_def Let_def split: if_splits)
  with assms obtain s3 s4 where ev: "apply_events thanos_mode s3 (fst (read_response (cin s))) = Inr s4"
    and c3: "cur_pos s3 = c" and s': "s' = open_neighbours c tn tm s4"
    by (auto simp: move_then_update_def Let_def split: if_splits sum.splits)
  from apply_events_frame[OF ev, of c] c3 s' show ?thesis
    by (simp add: open_neighbours_frame)
qed

subsection \<open>A hazard that disappears\<close>

text \<open>
  Claim C3, as the specification states it: a cell that was reported hazardous and is
  later reported neutral re-enters the frontier when an expansion improves its cost, and
  can then be extracted and stepped onto. In the run \<open>reopened_run\<close> the cell \<open>(0, 1)\<close> is
  reported hazardous, then neutral. After the second pass it is closed, neutral, at cost
  \<open>INF\<close> and not in the open set. The third pass expands \<open>(1, 1)\<close> and gives it the cost
  \<open>3\<close>: it is now first in the open set. The extraction of the fourth pass discards it,
  because it is still closed, and takes \<open>(1, 2)\<close>; the run reaches the target at cost
  \<open>4\<close> without ever requesting a move to \<open>(0, 1)\<close> (which would be \<open>m 1 0\<close>).
\<close>

theorem reopened_cell_never_extracted:
  "(case reopened_run 2 of
      None \<Rightarrow> False
    | Some s \<Rightarrow>
        (0, 1) \<in> closed s \<and> cell_status (table s (0, 1)) = CHR ''.'' \<and>
        from_player_cost (table s (0, 1)) = INF_VAL \<and> (0, 1) \<notin> set (open_pq s)) \<and>
   (case reopened_run 3 of
      None \<Rightarrow> False
    | Some s \<Rightarrow>
        cur_pos s = (1, 1) \<and> \<not> dangerous_status (table s (0, 1)) \<and>
        from_player_cost (table s (0, 1)) = 3 \<and> parent (table s (0, 1)) = Some (1, 1) \<and>
        open_pq s = [(0, 1), (1, 2), (2, 1), (2, 0)] \<and> (0, 1) \<in> closed s \<and>
        extract_best (closed s) (open_pq s) = Inr ((1, 2), [(2, 1), (2, 0)])) \<and>
   astar_main 40 0 2 0 [[(1, 0, CHR ''P'')], [(1, 0, CHR ''.'')]]
     = Some (Inr [Move 0 0, Move 0 1, Move 1 1, Move 2 1, Move 2 0, Exit 4])"
  by code_simp

text \<open>
  Claim C3, amended. A hazard report puts the cell into the closed set, and no pass of
  the loop removes a cell from the closed set, whatever the oracle reports later. When
  the cell is in the borders and not hazardous any more, an expansion from a cell \<open>cur\<close>
  that gives it a strictly better cost puts it into the open set with the new cost and
  the parent \<open>cur\<close>. But the extraction returns no closed cell, and the cell a pass steps
  onto was not closed when the pass began: the reopened cell is discarded when it is
  extracted.
\<close>

theorem closed_cell_reopened_but_discarded:
  "(\<forall>m n status s1. apply_event thanos_mode s (m, n, status) = Inr s1
        \<and> status \<in> {CHR ''P'', CHR ''M'', CHR ''H'', CHR ''T''} \<longrightarrow> (n, m) \<in> closed s1)
   \<and> (\<forall>k s'. after_passes k tn tm thanos_mode s = Some s' \<longrightarrow> closed s \<subseteq> closed s')
   \<and> (in_borders cn cm \<and> \<not> dangerous_status (table s (cn, cm))
        \<and> from_player_cost (table s cur) + 1 < from_player_cost (table s (cn, cm)) \<longrightarrow>
       (cn, cm) \<in> set (open_pq (update_then_check_cell cur tn tm cn cm s))
       \<and> from_player_cost (table (update_then_check_cell cur tn tm cn cm s) (cn, cm))
            = from_player_cost (table s cur) + 1
       \<and> parent (table (update_then_check_cell cur tn tm cn cm s) (cn, cm)) = Some cur)
   \<and> (\<forall>best rest. extract_best (closed s) (open_pq s) = Inr (best, rest) \<longrightarrow> best \<notin> closed s)
   \<and> (\<forall>s'. loop_body tn tm thanos_mode s = Some (Inr (False, s')) \<longrightarrow> cur_pos s' \<notin> closed s)"
proof (intro conjI allI impI)
  fix m n status s1
  assume "apply_event thanos_mode s (m, n, status) = Inr s1
        \<and> status \<in> {CHR ''P'', CHR ''M'', CHR ''H'', CHR ''T''}"
  then show "(n, m) \<in> closed s1" using apply_event_hazard_closed by blast
next
  fix k s' assume "after_passes k tn tm thanos_mode s = Some s'"
  then show "closed s \<subseteq> closed s'" by (rule after_passes_closed)
next
  assume a: "in_borders cn cm \<and> \<not> dangerous_status (table s (cn, cm))
        \<and> from_player_cost (table s cur) + 1 < from_player_cost (table s (cn, cm))"
  from a update_then_check_cell_reopens[of cn cm s cur tn tm]
  show "(cn, cm) \<in> set (open_pq (update_then_check_cell cur tn tm cn cm s))"
    and "from_player_cost (table (update_then_check_cell cur tn tm cn cm s) (cn, cm))
            = from_player_cost (table s cur) + 1"
    and "parent (table (update_then_check_cell cur tn tm cn cm s) (cn, cm)) = Some cur"
    by simp_all
next
  fix best rest assume "extract_best (closed s) (open_pq s) = Inr (best, rest)"
  then show "best \<notin> closed s" by (simp add: extract_best_fresh)
next
  fix s' assume "loop_body tn tm thanos_mode s = Some (Inr (False, s'))"
  then obtain best rest s1 where e: "extract_best (closed s) (open_pq s) = Inr (best, rest)"
    and m: "move_then_update best tn tm thanos_mode s1 = Inr (False, s')"
    by (rule loop_body_cases)
  from move_then_update_cur_pos[OF m] extract_best_fresh[OF e]
  show "cur_pos s' \<notin> closed s" by simp
qed

theorem closed_cell_reopened_but_discarded_witness:
  "(case reopened_run 2 of
      None \<Rightarrow> False
    | Some s \<Rightarrow>
        (case apply_event 0 s (1, 0, CHR ''P'') of
           Inl e \<Rightarrow> False | Inr s1 \<Rightarrow> (0, 1) \<in> closed s1) \<and>
        (case after_passes 1 0 2 0 s of
           None \<Rightarrow> False | Some s' \<Rightarrow> closed s \<subseteq> closed s') \<and>
        in_borders 0 1 \<and> \<not> dangerous_status (table s (0, 1)) \<and>
        from_player_cost (table s (1, 1)) + 1 < from_player_cost (table s (0, 1)) \<and>
        (0, 1) \<in> set (open_pq (update_then_check_cell (1, 1) 0 2 0 1 s)) \<and>
        (case extract_best (closed s) (open_pq s) of
           Inl e \<Rightarrow> False | Inr (best, rest) \<Rightarrow> best \<notin> closed s) \<and>
        (case loop_body 0 2 0 s of
           Some (Inr (False, s')) \<Rightarrow> cur_pos s' \<notin> closed s | _ \<Rightarrow> False))"
proof -
  have ex: "reopened_run 2 \<noteq> None" by code_simp
  then obtain s where s: "reopened_run 2 = Some s" by auto
  have the_s: "s = the (reopened_run 2)" unfolding s by simp
  have h1: "\<not> isl (apply_event 0 s (1, 0, CHR ''P''))" unfolding the_s by code_simp
  have h2: "after_passes 1 0 2 0 s \<noteq> None" unfolding the_s by code_simp
  have h3: "in_borders 0 1" by code_simp
  have h4: "\<not> dangerous_status (table s (0, 1))" unfolding the_s by code_simp
  have h5: "from_player_cost (table s (1, 1)) + 1 < from_player_cost (table s (0, 1))"
    unfolding the_s by code_simp
  have h6: "\<not> isl (extract_best (closed s) (open_pq s))" unfolding the_s by code_simp
  have h7: "(case loop_body 0 2 0 s of Some (Inr (False, s')) \<Rightarrow> True | _ \<Rightarrow> False)"
    unfolding the_s by code_simp
  from h1 obtain s1 where m1: "apply_event 0 s (1, 0, CHR ''P'') = Inr s1"
    by (cases "apply_event 0 s (1, 0, CHR ''P'')") auto
  from h2 obtain s2 where m2: "after_passes 1 0 2 0 s = Some s2" by auto
  from h6 obtain best rest where m6: "extract_best (closed s) (open_pq s) = Inr (best, rest)"
    by (cases "extract_best (closed s) (open_pq s)") auto
  from h7 obtain s7 where m7: "loop_body 0 2 0 s = Some (Inr (False, s7))"
    by (auto split: option.splits sum.splits prod.splits bool.splits)
  note T = closed_cell_reopened_but_discarded [of 0 s 0 2 0 1 "(1, 1)"]
  have a1: "(0, 1) \<in> closed s1" using T m1 by blast
  have a2: "closed s \<subseteq> closed s2" using T m2 by blast
  have a3: "(0, 1) \<in> set (open_pq (update_then_check_cell (1, 1) 0 2 0 1 s))"
    using T h3 h4 h5 by blast
  have a6: "best \<notin> closed s" using T m6 by blast
  have a7: "cur_pos s7 \<notin> closed s" using T m7 by blast
  show ?thesis unfolding s using m1 m2 m6 m7 a1 a2 a3 a6 a7 h3 h4 h5 by simp
qed

section \<open>The exhaustive engine: termination of the exploration\<close>

subsection \<open>Every invocation visits a new cell of the table\<close>

lemma grid_eq: "grid = {0..8} \<times> {0..8}"
  by (auto simp: grid_def in_borders_def TABLE_SIZE_def)

lemma finite_grid [simp]: "finite grid"
  by (simp add: grid_eq)

lemma card_grid: "card grid = 81"
  by (simp add: grid_eq card_cartesian_product)

lemma bt_stupid_move_frame [simp]:
  "visited (bt_stupid_move c s) = visited s"
  "dfs_calls (bt_stupid_move c s) = dfs_calls s"
  "btable (bt_stupid_move c s) = btable s"
  by (simp_all add: bt_stupid_move_def)

lemma bt_move_then_update_frame:
  assumes "bt_move_then_update c thanos_mode s = Inr (r, s')"
  shows "visited s' = insert c (visited s) \<and> dfs_calls s' = dfs_calls s"
proof -
  from assms obtain s2 where ev: "bt_apply_events s2 (fst (read_response (bt_cin s))) = Inr s'"
    and "visited s2 = insert c (visited s)" and "dfs_calls s2 = dfs_calls s"
    by (auto simp: bt_move_then_update_def Let_def split: sum.splits if_splits)
  with bt_apply_events_frame[OF ev, of c] show ?thesis by simp
qed

lemma card_grid_insert:
  assumes "c \<in> grid" "c \<notin> V"
  shows "Suc (card (grid - insert c V)) = card (grid - V)"
proof -
  have "grid - V = insert c (grid - insert c V)" using assms by auto
  moreover have "c \<notin> grid - insert c V" by simp
  moreover have "finite (grid - insert c V)" by simp
  ultimately show ?thesis by (metis card_insert_disjoint)
qed

lemma dfs_children_returns:
  assumes rec: "\<And>c s. c \<in> grid \<Longrightarrow> c \<notin> visited s \<Longrightarrow> card (grid - visited s) \<le> k \<Longrightarrow>
                  dfs_returns (rec c s) c s"
    and bound: "card (grid - visited s) \<le> k"
  shows "case dfs_children rec cur cs has s of
           None \<Rightarrow> False
         | Some (Inl e) \<Rightarrow> True
         | Some (Inr (res, s')) \<Rightarrow>
             visited s \<subseteq> visited s' \<and> visited s' \<subseteq> grid \<union> visited s \<and>
             dfs_calls s' + card (grid - visited s') = dfs_calls s + card (grid - visited s)"
  using bound
proof (induction cs arbitrary: has s)
  case Nil
  then show ?case by simp
next
  case (Cons crds rest)
  show ?case
  proof (cases "in_borders (fst crds) (snd crds) \<and> \<not> bt_dangerous_status (btable s crds)
         \<and> crds \<notin> visited s")
    case False
    with Cons.IH[OF Cons.prems, of has] show ?thesis by auto
  next
    case True
    then have g: "crds \<in> grid" and nv: "crds \<notin> visited s" by (simp_all add: grid_def)
    from rec[OF g nv Cons.prems] have ret: "dfs_returns (rec crds s) crds s" .
    show ?thesis
    proof (cases "rec crds s")
      case None
      with ret show ?thesis by (simp add: dfs_returns_def)
    next
      case (Some x)
      show ?thesis
      proof (cases x)
        case (Inl e)
        with Some True show ?thesis by simp
      next
        case (Inr p)
        obtain res s1 where p: "p = (res, s1)" by (cases p)
        from ret Some Inr p have v1: "visited s \<subseteq> visited s1"
          and v2: "visited s1 \<subseteq> grid \<union> visited s"
          and cnt: "dfs_calls s1 + card (grid - visited s1) = dfs_calls s + card (grid - visited s)"
          by (simp_all add: dfs_returns_def)
        let ?s2 = "bt_stupid_move cur s1"
        have "card (grid - visited s1) \<le> card (grid - visited s)"
          using v1 by (intro card_mono) auto
        with Cons.prems have b2: "card (grid - visited ?s2) \<le> k" by simp
        define has' where "has' = (if \<not> has then res else has)"
        have step: "dfs_children rec cur (crds # rest) has s = dfs_children rec cur rest has' ?s2"
          using True Some Inr p by (simp add: has'_def)
        have "card (grid - visited s1) + dfs_calls s1 = card (grid - visited s) + dfs_calls s"
          using cnt by simp
        with Cons.IH[OF b2, of has'] v1 v2
        show ?thesis unfolding step
          by (auto split: option.splits sum.splits)
      qed
    qed
  qed
qed

lemma backtracking_dfs_returns:
  "cur \<in> grid \<Longrightarrow> cur \<notin> visited s \<Longrightarrow> card (grid - visited s) \<le> k \<Longrightarrow>
   dfs_returns (backtracking_dfs k thanos_mode cur s) cur s"
proof (induction k arbitrary: cur s)
  case 0
  then have "grid - visited s = {}" by simp
  with 0 show ?case by auto
next
  case (Suc k)
  let ?s0 = "s\<lparr>dfs_calls := Suc (dfs_calls s)\<rparr>"
  show ?case
  proof (cases "bt_move_then_update cur thanos_mode ?s0")
    case (Inl e)
    then show ?thesis by (simp add: dfs_returns_def)
  next
    case (Inr p)
    obtain sol s1 where p: "p = (sol, s1)" by (cases p)
    from bt_move_then_update_frame[OF Inr[unfolded p]]
    have v1: "visited s1 = insert cur (visited s)" and c1: "dfs_calls s1 = Suc (dfs_calls s)"
      by simp_all
    from card_grid_insert[OF Suc.prems(1,2)]
    have cd: "Suc (card (grid - visited s1)) = card (grid - visited s)" by (simp add: v1)
    with Suc.prems have b1: "card (grid - visited s1) \<le> k" by simp
    have ch: "case dfs_children (backtracking_dfs k thanos_mode) cur (next_cells cur) False s1 of
           None \<Rightarrow> False
         | Some (Inl e) \<Rightarrow> True
         | Some (Inr (res, s')) \<Rightarrow>
             visited s1 \<subseteq> visited s' \<and> visited s' \<subseteq> grid \<union> visited s1 \<and>
             dfs_calls s' + card (grid - visited s') = dfs_calls s1 + card (grid - visited s1)"
      by (rule dfs_children_returns[OF Suc.IH b1])
    show ?thesis
      using ch Inr p v1 c1 cd Suc.prems(1)
      by (auto simp: dfs_returns_def split: option.splits sum.splits)
  qed
qed

subsection \<open>The exploration returns\<close>

text \<open>
  Claim C10. The depth-first exploration of the exhaustive engine terminates on every
  oracle response sequence, and the number of invocations of \<open>backtracking_dfs\<close> is at
  most 81: started by \<open>launch_backtracking\<close> on the cell \<open>(0, 0)\<close> with an empty visited
  set, on any table and any input, a recursion depth of 81 is enough for the call to
  return. It returns a fault (a response that names a cell outside the table) or a
  result; then the invocations are as many as the visited cells, which are cells of the
  table, hence at most 81.
\<close>

theorem backtracking_dfs_terminates:
  "81 \<le> fuel \<Longrightarrow>
   (case backtracking_dfs fuel thanos_mode (0, 0) (bt_initial_state tbl inp) of
      None \<Rightarrow> False
    | Some (Inl e) \<Rightarrow> True
    | Some (Inr (res, s')) \<Rightarrow>
        dfs_calls s' \<le> 81 \<and> dfs_calls s' = card (visited s') \<and> visited s' \<subseteq> grid)"
proof -
  assume f: "81 \<le> fuel"
  let ?s = "bt_initial_state tbl inp"
  have v: "visited ?s = {}" and c: "dfs_calls ?s = 0" by (simp_all add: bt_initial_state_def)
  have g: "(0, 0) \<in> grid" by (simp add: grid_eq)
  have "dfs_returns (backtracking_dfs fuel thanos_mode (0, 0) ?s) (0, 0) ?s"
    using f by (intro backtracking_dfs_returns g) (simp_all add: v card_grid)
  then show ?thesis
  proof (cases "backtracking_dfs fuel thanos_mode (0, 0) ?s")
    case None
    then show ?thesis using \<open>dfs_returns _ _ _\<close> by (simp add: dfs_returns_def)
  next
    case (Some x)
    show ?thesis
    proof (cases x)
      case (Inl e)
      with Some show ?thesis by simp
    next
      case (Inr p)
      obtain res s' where p: "p = (res, s')" by (cases p)
      from \<open>dfs_returns _ _ _\<close> Some Inr p v c
      have sub: "visited s' \<subseteq> grid" and cnt: "dfs_calls s' + card (grid - visited s') = 81"
        by (simp_all add: dfs_returns_def card_grid)
      have "card (grid - visited s') = card grid - card (visited s')"
        using sub by (simp add: card_Diff_subset finite_subset)
      moreover have "card (visited s') \<le> card grid" using sub by (simp add: card_mono)
      ultimately have "dfs_calls s' = card (visited s')" using cnt by (simp add: card_grid)
      with cnt sub show ?thesis using Some Inr p by simp
    qed
  qed
qed

theorem backtracking_dfs_terminates_witness:
  "(81::nat) \<le> 81 \<and>
   (case bt_init_game_table 1 1 of
      Inl e \<Rightarrow> False
    | Inr tbl \<Rightarrow>
        (case backtracking_dfs 81 0 (0, 0) (bt_initial_state tbl []) of
           Some (Inr (res, s')) \<Rightarrow>
             res \<and> dfs_calls s' = 81 \<and> dfs_calls s' = card (visited s') \<and> visited s' \<subseteq> grid
         | _ \<Rightarrow> False))"
proof -
  have "\<not> isl (bt_init_game_table 1 1)" by code_simp
  then obtain tbl where t: "bt_init_game_table 1 1 = Inr tbl"
    by (cases "bt_init_game_table 1 1") auto
  have the_t: "tbl = projr (bt_init_game_table 1 1)" unfolding t by simp
  have e: "map_option (map_sum id (\<lambda>(res, s'). (res, dfs_calls s')))
             (backtracking_dfs 81 0 (0, 0) (bt_initial_state tbl [])) = Some (Inr (True, 81))"
    unfolding the_t by code_simp
  have h: "(81::nat) \<le> 81" by simp
  from backtracking_dfs_terminates [OF h, of 0 tbl "[]"] e
  show ?thesis unfolding t by (auto split: option.splits sum.splits)
qed

section \<open>The final output\<close>

subsection \<open>Rendering\<close>

lemma digit_not_minus: "d < 10 \<Longrightarrow> ''0123456789'' ! d \<noteq> CHR ''-''"
proof -
  assume "d < 10"
  then have "d \<in> {0, 1, 2, 3, 4, 5, 6, 7, 8, 9}" by auto
  then show ?thesis by auto
qed

lemma show_nat_hd: "show_nat n \<noteq> [] \<and> hd (show_nat n) \<noteq> CHR ''-''"
proof (induction n rule: show_nat.induct)
  case (1 n)
  show ?case
  proof (cases "n < 10")
    case True
    then show ?thesis by (subst (1 2) show_nat.simps) (simp add: digit_not_minus)
  next
    case False
    with 1 have "show_nat (n div 10) \<noteq> [] \<and> hd (show_nat (n div 10)) \<noteq> CHR ''-''" by simp
    with False show ?thesis by (subst (1 2) show_nat.simps) simp
  qed
qed

lemma render_Exit_minus_one: "render (Exit (- 1)) = ''e -1''"
  by (simp add: show_int_def show_nat.simps)

lemma render_Exit_nonneg: "0 \<le> c \<Longrightarrow> render (Exit c) \<noteq> ''e -1''"
  using show_nat_hd[of "nat c"] by (cases "show_nat (nat c)") (auto simp: show_int_def)

subsection \<open>Costs of the best-first engine\<close>

lemma update_then_check_cell_cost:
  "from_player_cost (table (update_then_check_cell cur tn tm cn cm s) x)
     \<le> from_player_cost (table s x)"
  by (simp add: update_then_check_cell_def Let_def)

lemma update_then_check_cell_nonneg:
  assumes "costs_nonneg (table s)"
  shows "costs_nonneg (table (update_then_check_cell cur tn tm cn cm s))"
proof -
  from assms have "0 \<le> from_player_cost (table s cur)" and "\<And>x. 0 \<le> from_player_cost (table s x)"
    unfolding costs_nonneg_def by blast+
  then show ?thesis
    unfolding costs_nonneg_def
    by (simp add: update_then_check_cell_def Let_def)
qed

lemma open_neighbours_cost:
  "from_player_cost (table (open_neighbours cur tn tm s) x) \<le> from_player_cost (table s x)"
  unfolding open_neighbours_def Let_def
  by (blast intro: order_trans update_then_check_cell_cost)

lemma open_neighbours_nonneg:
  "costs_nonneg (table s) \<Longrightarrow> costs_nonneg (table (open_neighbours cur tn tm s))"
  unfolding open_neighbours_def Let_def
  by (intro update_then_check_cell_nonneg)

lemma apply_events_nonneg:
  "apply_events thanos_mode s evs = Inr s' \<Longrightarrow> costs_nonneg (table s) \<Longrightarrow> costs_nonneg (table s')"
  using apply_events_frame[of thanos_mode s evs s'] by (simp add: costs_nonneg_def)

lemma move_then_update_inv:
  assumes m: "move_then_update c tn tm thanos_mode s = Inr (found, s')"
    and nn: "costs_nonneg (table s)" and mv: "\<forall>l\<in>set (cout s). is_move l"
  shows "costs_nonneg (table s') \<and> (\<forall>l\<in>set (cout s'). is_move l)
     \<and> cout s' = cout s @ [Move (snd c) (fst c)]
     \<and> (found \<longleftrightarrow> cell_status (table s c) = CHR ''I'')
     \<and> (found \<longrightarrow> table s' = table s)"
proof (cases "cell_status (table s c) = CHR ''I''")
  case True
  with m nn mv show ?thesis by (auto simp: move_then_update_def Let_def is_move_def)
next
  case False
  with m obtain s3 s4 where ev: "apply_events thanos_mode s3 (fst (read_response (cin s))) = Inr s4"
    and t3: "table s3 = table s" and c3: "cout s3 = cout s @ [Move (snd c) (fst c)]"
    and s': "s' = open_neighbours c tn tm s4" and f: "\<not> found"
    by (auto simp: move_then_update_def Let_def split: if_splits sum.splits)
  from apply_events_nonneg[OF ev] nn t3 have "costs_nonneg (table s4)" by simp
  then have "costs_nonneg (table s')" unfolding s' by (rule open_neighbours_nonneg)
  moreover from apply_events_frame[OF ev, of c] c3 have "cout s' = cout s @ [Move (snd c) (fst c)]"
    by (simp add: s' open_neighbours_frame)
  ultimately show ?thesis using mv f False by (simp add: is_move_def)
qed

lemma walked_cout_moves:
  "\<forall>l\<in>set (cout s). is_move l \<Longrightarrow> \<forall>l\<in>set (cout (walked cs s)). is_move l"
  by (auto simp: walked_def is_move_def)

lemma reconcile_inv:
  assumes r: "reconcile best s = Some (Inr s')"
    and mv: "\<forall>l\<in>set (cout s). is_move l"
  shows "table s' = table s \<and> (\<forall>l\<in>set (cout s'). is_move l)"
proof (cases "neighbour (cur_pos s) best")
  case True
  with r mv show ?thesis by (simp add: reconcile_def)
next
  case False
  with r obtain s1 where rs: "return_to_start s = Some s1"
    and w: "stupid_move_to_known_target (parent (table s1 best)) (s1\<lparr>has_shield := False\<rparr>)
              = Some (Inr s')"
    by (auto simp: reconcile_def split: option.splits)
  from rs obtain pc where s1: "s1 = walked (tl pc) s"
    by (auto simp: return_to_start_eq split: option.splits)
  from w obtain rest where s': "s' = foldl walk_step (s1\<lparr>has_shield := False\<rparr>) rest"
    by (auto simp: stupid_move_to_known_target_def split: option.splits list.splits)
  have "table s' = table s" by (simp add: s' s1 foldl_walk_step walked_def)
  moreover have "\<forall>l\<in>set (cout s'). is_move l"
    using mv by (auto simp: s' s1 foldl_walk_step walked_def is_move_def)
  ultimately show ?thesis by simp
qed

lemma loop_body_inv:
  assumes b: "loop_body tn tm thanos_mode s = Some (Inr (found, s'))"
    and nn: "costs_nonneg (table s)" and mv: "\<forall>l\<in>set (cout s). is_move l"
  shows "costs_nonneg (table s') \<and> (\<forall>l\<in>set (cout s'). is_move l)
     \<and> (found \<longrightarrow> (\<exists>c. cell_status (table s' c) = CHR ''I'' \<and> cout s' \<noteq> []
                       \<and> last (cout s') = Move (snd c) (fst c)))"
proof -
  from b obtain best rest s1 where r: "reconcile best (s\<lparr>open_pq := rest\<rparr>) = Some (Inr s1)"
    and m: "move_then_update best tn tm thanos_mode s1 = Inr (found, s')"
    by (rule loop_body_cases)
  from reconcile_inv[OF r] mv have t1: "table s1 = table s" and mv1: "\<forall>l\<in>set (cout s1). is_move l"
    by simp_all
  from nn t1 have nn1: "costs_nonneg (table s1)" by simp
  from move_then_update_inv[OF m nn1 mv1] show ?thesis by auto
qed

lemma launch_loop_inv:
  "launch_loop k tn tm thanos_mode s = Some (Inr (found, s')) \<Longrightarrow>
   costs_nonneg (table s) \<Longrightarrow> \<forall>l\<in>set (cout s). is_move l \<Longrightarrow>
   costs_nonneg (table s') \<and> (\<forall>l\<in>set (cout s'). is_move l)
     \<and> (found \<longrightarrow> (\<exists>c. cell_status (table s' c) = CHR ''I'' \<and> cout s' \<noteq> []
                       \<and> last (cout s') = Move (snd c) (fst c)))
     \<and> (\<not> found \<longrightarrow> open_pq s' = [])"
proof (induction k arbitrary: s)
  case 0
  then show ?case by simp
next
  case (Suc k)
  show ?case
  proof (cases "open_pq s = []")
    case True
    with Suc.prems show ?thesis by auto
  next
    case False
    with Suc.prems(1) obtain f1 s1 where b: "loop_body tn tm thanos_mode s = Some (Inr (f1, s1))"
      and rest: "if f1 then found \<and> s' = s1
                 else launch_loop k tn tm thanos_mode s1 = Some (Inr (found, s'))"
      by (auto split: option.splits sum.splits prod.splits if_splits)
    from loop_body_inv[OF b Suc.prems(2,3)]
    have i1: "costs_nonneg (table s1)" "\<forall>l\<in>set (cout s1). is_move l"
      and f: "f1 \<longrightarrow> (\<exists>c. cell_status (table s1 c) = CHR ''I'' \<and> cout s1 \<noteq> []
                       \<and> last (cout s1) = Move (snd c) (fst c))"
      by simp_all
    show ?thesis
    proof (cases f1)
      case True
      with rest i1 f show ?thesis by auto
    next
      case False
      with rest have "launch_loop k tn tm thanos_mode s1 = Some (Inr (found, s'))" by simp
      from Suc.IH[OF this i1] show ?thesis .
    qed
  qed
qed

lemma init_game_table_nonneg:
  "init_game_table tn tm = Inr tbl \<Longrightarrow> costs_nonneg tbl"
  by (auto simp: init_game_table_def costs_nonneg_def new_cell_def INF_VAL_def split: if_splits)

subsection \<open>Invariants of the exhaustive engine\<close>

lemma dfs_children_preserves:
  assumes rec: "\<And>c s res s'. rec c s = Some (Inr (res, s')) \<Longrightarrow> P s \<Longrightarrow> P s'"
    and retn: "\<And>c s. P s \<Longrightarrow> P (bt_stupid_move c s)"
  shows "dfs_children rec cur cs has s = Some (Inr (res, s')) \<Longrightarrow> P s \<Longrightarrow> P s'"
proof (induction cs arbitrary: has s)
  case Nil
  then show ?case by simp
next
  case (Cons crds rest)
  show ?case
  proof (cases "in_borders (fst crds) (snd crds) \<and> \<not> bt_dangerous_status (btable s crds)
         \<and> crds \<notin> visited s")
    case False
    with Cons.prems(1) have "dfs_children rec cur rest has s = Some (Inr (res, s'))" by auto
    from Cons.IH[OF this Cons.prems(2)] show ?thesis .
  next
    case True
    with Cons.prems(1) obtain r1 s1 where r: "rec crds s = Some (Inr (r1, s1))"
      and c: "dfs_children rec cur rest (if \<not> has then r1 else has) (bt_stupid_move cur s1)
                = Some (Inr (res, s'))"
      by (auto split: option.splits sum.splits)
    from rec[OF r Cons.prems(2)] have "P (bt_stupid_move cur s1)" by (rule retn)
    from Cons.IH[OF c this] show ?thesis .
  qed
qed

lemma backtracking_dfs_preserves:
  assumes visit: "\<And>c s r s'. bt_move_then_update c thanos_mode (s\<lparr>dfs_calls := Suc (dfs_calls s)\<rparr>)
                     = Inr (r, s') \<Longrightarrow> P s \<Longrightarrow> P s'"
    and retn: "\<And>c s. P s \<Longrightarrow> P (bt_stupid_move c s)"
  shows "backtracking_dfs k thanos_mode cur s = Some (Inr (res, s')) \<Longrightarrow> P s \<Longrightarrow> P s'"
proof (induction k arbitrary: cur s res s')
  case 0
  then show ?case by simp
next
  case (Suc k)
  let ?m = "bt_move_then_update cur thanos_mode (s\<lparr>dfs_calls := Suc (dfs_calls s)\<rparr>)"
  from Suc.prems(1) obtain p where m0: "?m = Inr p" by (cases ?m) auto
  obtain sol s1 where m: "?m = Inr (sol, s1)" using m0 by (cases p) auto
  let ?c = "dfs_children (backtracking_dfs k thanos_mode) cur (next_cells cur) False s1"
  from Suc.prems(1) m obtain q where c0: "?c = Some (Inr q)"
    by (cases ?c) (auto split: sum.splits)
  obtain hc s2 where c: "?c = Some (Inr (hc, s2))" using c0 by (cases q) auto
  from Suc.prems(1) m c have s2: "s2 = s'" by simp
  from visit[OF m Suc.prems(2)] have p1: "P s1" .
  have "P s2"
  proof (rule dfs_children_preserves[where P = P and rec = "backtracking_dfs k thanos_mode"])
    show "?c = Some (Inr (hc, s2))" by (rule c)
  next
    show "P s1" by (rule p1)
  next
    fix c t r t'
    assume "backtracking_dfs k thanos_mode c t = Some (Inr (r, t'))" and "P t"
    then show "P t'" by (rule Suc.IH)
  next
    fix c t assume "P t"
    then show "P (bt_stupid_move c t)" by (rule retn)
  qed
  then show ?case by (simp add: s2)
qed

lemma bt_move_then_update_out:
  assumes "bt_move_then_update c thanos_mode s = Inr (r, s')"
  shows "bt_cout s' = bt_cout s @ [Move (snd c) (fst c)]
     \<and> bt_from_player_cost (btable s' x) = bt_from_player_cost (btable s x)"
proof -
  from assms obtain s2 where ev: "bt_apply_events s2 (fst (read_response (bt_cin s))) = Inr s'"
    and "bt_cout s2 = bt_cout s @ [Move (snd c) (fst c)]" and "btable s2 = btable s"
    by (auto simp: bt_move_then_update_def Let_def split: sum.splits if_splits)
  with bt_apply_events_frame[OF ev, of x] show ?thesis by simp
qed

lemma backtracking_dfs_out:
  assumes d: "backtracking_dfs k thanos_mode cur s = Some (Inr (res, s'))"
    and mv: "\<forall>l\<in>set (bt_cout s). is_move l"
  shows "(\<forall>l\<in>set (bt_cout s'). is_move l)
     \<and> (\<forall>x. bt_from_player_cost (btable s' x) = bt_from_player_cost (btable s x))"
proof -
  let ?P = "\<lambda>t::bt_state. (\<forall>l\<in>set (bt_cout t). is_move l)
     \<and> (\<forall>x. bt_from_player_cost (btable t x) = bt_from_player_cost (btable s x))"
  have "?P s'"
  proof (rule backtracking_dfs_preserves[where P = ?P, OF _ _ d])
    fix c t r t'
    assume m: "bt_move_then_update c thanos_mode (t\<lparr>dfs_calls := Suc (dfs_calls t)\<rparr>) = Inr (r, t')"
      and p: "?P t"
    from bt_move_then_update_out[OF m] p show "?P t'" by (simp add: is_move_def)
  next
    fix c t assume "?P t"
    then show "?P (bt_stupid_move c t)" by (simp add: bt_stupid_move_def is_move_def)
  next
    show "?P s" using mv by simp
  qed
  then show ?thesis .
qed

lemma bfs_visit_nonneg:
  assumes "bt_costs_nonneg (bfs_table s)"
  shows "bt_costs_nonneg (bfs_table (snd (bfs_visit cur crds s)))"
proof -
  from assms have "0 \<le> bt_from_player_cost (bfs_table s cur)"
    and "\<And>x. 0 \<le> bt_from_player_cost (bfs_table s x)"
    unfolding bt_costs_nonneg_def by blast+
  then show ?thesis
    unfolding bt_costs_nonneg_def by (simp add: bfs_visit_def Let_def)
qed

lemma bfs_neighbours_nonneg:
  "bt_costs_nonneg (bfs_table s) \<Longrightarrow>
   bt_costs_nonneg (bfs_table (snd (bfs_neighbours cur cs s)))"
proof (induction cs arbitrary: s)
  case Nil
  then show ?case by simp
next
  case (Cons crds rest)
  from bfs_visit_nonneg[OF Cons.prems, of cur crds]
  have v: "bt_costs_nonneg (bfs_table (snd (bfs_visit cur crds s)))" .
  show ?case
  proof (cases "bfs_visit cur crds s")
    case (Pair f s1)
    with v Cons.IH[of s1] show ?thesis by (cases f) simp_all
  qed
qed

lemma bfs_loop_nonneg:
  "bfs_loop k s = Some s' \<Longrightarrow> bt_costs_nonneg (bfs_table s) \<Longrightarrow> bt_costs_nonneg (bfs_table s')"
proof (induction k arbitrary: s)
  case 0
  then show ?case by simp
next
  case (Suc k)
  show ?case
  proof (cases "bfs_q s")
    case Nil
    with Suc.prems show ?thesis by simp
  next
    case (Cons cur rest)
    let ?p = "bfs_neighbours cur (next_cells cur) (bfs_pop cur rest s)"
    have "bt_costs_nonneg (bfs_table (bfs_pop cur rest s))"
      using Suc.prems(2) by (simp add: bfs_pop_def)
    then have nn: "bt_costs_nonneg (bfs_table (snd ?p))" by (rule bfs_neighbours_nonneg)
    show ?thesis
    proof (cases ?p)
      case (Pair f s1)
      show ?thesis
      proof (cases f)
        case True
        with Suc.prems(1) Cons Pair nn show ?thesis by simp
      next
        case False
        with Suc.prems(1) Cons Pair have "bfs_loop k s1 = Some s'" by simp
        from Suc.IH[OF this] nn Pair show ?thesis by simp
      qed
    qed
  qed
qed

lemma bt_init_game_table_nonneg:
  "bt_init_game_table tn tm = Inr tbl \<Longrightarrow> bt_costs_nonneg tbl"
  by (auto simp: bt_init_game_table_def bt_costs_nonneg_def bt_new_cell_def INF_VAL_def
           split: if_splits)

subsection \<open>The result line of a run that returns\<close>

lemma astar_final_output:
  assumes "astar_main fuel flag inf_stone_m inf_stone_n inp = Some (Inr out)"
  shows "\<exists>tbl found s. init_game_table inf_stone_n inf_stone_m = Inr tbl
         \<and> launch_a_star fuel inf_stone_n inf_stone_m flag (initial_state tbl inp)
              = Some (Inr (found, s))
         \<and> out = cout s @ [Exit (if found
                    then from_player_cost (table s (inf_stone_n, inf_stone_m)) else - 1)]
         \<and> (\<forall>l\<in>set (cout s). is_move l)
         \<and> (found \<longrightarrow> (\<exists>c. cell_status (table s c) = CHR ''I'' \<and> cout s \<noteq> []
                           \<and> last (cout s) = Move (snd c) (fst c)))
         \<and> (\<not> found \<longrightarrow> open_pq s = [])
         \<and> (render (last out) = ''e -1'' \<longleftrightarrow> \<not> found)"
proof -
  from assms obtain tbl where t: "init_game_table inf_stone_n inf_stone_m = Inr tbl"
    by (cases "init_game_table inf_stone_n inf_stone_m") (auto simp: astar_main_def)
  let ?l = "launch_a_star fuel inf_stone_n inf_stone_m flag (initial_state tbl inp)"
  from assms t obtain p where l0: "?l = Some (Inr p)"
    by (cases ?l) (auto simp: astar_main_def split: sum.splits)
  obtain found s where l: "?l = Some (Inr (found, s))" using l0 by (cases p) auto
  from assms t l have out: "out = cout s @ [Exit (if found
                    then from_player_cost (table s (inf_stone_n, inf_stone_m)) else - 1)]"
    by (auto simp: astar_main_def)
  let ?s0 = "(initial_state tbl inp)\<lparr>cur_pos := (0, 0)\<rparr>"
  have nn0: "costs_nonneg (table ?s0)"
    using init_game_table_nonneg[OF t] by (simp add: initial_state_def)
  have mv0: "\<forall>l\<in>set (cout ?s0). is_move l" by (simp add: initial_state_def)
  from l have "launch_loop fuel inf_stone_n inf_stone_m flag ?s0 = Some (Inr (found, s))"
    by (simp add: launch_a_star_def)
  from launch_loop_inv[OF this nn0 mv0]
  have nn: "costs_nonneg (table s)" and mv: "\<forall>l\<in>set (cout s). is_move l"
    and f: "found \<longrightarrow> (\<exists>c. cell_status (table s c) = CHR ''I'' \<and> cout s \<noteq> []
                           \<and> last (cout s) = Move (snd c) (fst c))"
    and nf: "\<not> found \<longrightarrow> open_pq s = []" by simp_all
  from nn have "0 \<le> from_player_cost (table s (inf_stone_n, inf_stone_m))"
    unfolding costs_nonneg_def by blast
  then have "render (last out) = ''e -1'' \<longleftrightarrow> \<not> found"
    unfolding out using render_Exit_nonneg render_Exit_minus_one by (cases found) simp_all
  with t l out mv f nf show ?thesis by blast
qed

lemma bt_final_output:
  assumes "bt_main fuel flag inf_stone_m inf_stone_n inp = Some (Inr out)"
  shows "\<exists>tbl found s. bt_init_game_table inf_stone_n inf_stone_m = Inr tbl
         \<and> launch_backtracking fuel flag (bt_initial_state tbl inp) = Some (Inr (found, s))
         \<and> out = bt_cout s @ [Exit (if found
                    then bt_from_player_cost (btable s (inf_stone_n, inf_stone_m)) else - 1)]
         \<and> (\<forall>l\<in>set (bt_cout s). is_move l)
         \<and> (render (last out) = ''e -1'' \<longleftrightarrow> \<not> found)"
proof -
  from assms obtain tbl where t: "bt_init_game_table inf_stone_n inf_stone_m = Inr tbl"
    by (cases "bt_init_game_table inf_stone_n inf_stone_m") (auto simp: bt_main_def)
  let ?s0 = "bt_initial_state tbl inp"
  let ?l = "launch_backtracking fuel flag ?s0"
  from assms t obtain p where l0: "?l = Some (Inr p)"
    by (cases ?l) (auto simp: bt_main_def split: sum.splits)
  obtain found s where l: "?l = Some (Inr (found, s))" using l0 by (cases p) auto
  from assms t l have out: "out = bt_cout s @ [Exit (if found
                    then bt_from_player_cost (btable s (inf_stone_n, inf_stone_m)) else - 1)]"
    by (auto simp: bt_main_def)
  let ?d = "backtracking_dfs fuel flag (0, 0) ?s0"
  from l obtain q where d0: "?d = Some (Inr q)"
    by (cases ?d) (auto simp: launch_backtracking_def split: sum.splits)
  obtain sol s1 where d: "?d = Some (Inr (sol, s1))" using d0 by (cases q) auto
  have mv0: "\<forall>l\<in>set (bt_cout ?s0). is_move l" by (simp add: bt_initial_state_def)
  from backtracking_dfs_out[OF d mv0]
  have mv1: "\<forall>l\<in>set (bt_cout s1). is_move l"
    and c1': "\<forall>x. bt_from_player_cost (btable s1 x) = bt_from_player_cost (btable ?s0 x)"
    by blast+
  have c1: "bt_from_player_cost (btable s1 x) = bt_from_player_cost (tbl x)" for x
    using c1'[rule_format, of x] by (simp add: bt_initial_state_def)
  from bt_init_game_table_nonneg[OF t] c1 have nn1: "bt_costs_nonneg (btable s1)"
    by (simp add: bt_costs_nonneg_def)
  have "bt_cout s = bt_cout s1 \<and> (found \<longrightarrow> bt_costs_nonneg (btable s))"
  proof (cases sol)
    case False
    with l d show ?thesis by (simp add: launch_backtracking_def)
  next
    case True
    with l d obtain tbl' where b: "backtracking_bfs fuel (btable s1) = Some tbl'"
      and s: "s = s1\<lparr>btable := tbl'\<rparr>"
      by (auto simp: launch_backtracking_def split: option.splits)
    from b obtain s2 where "bfs_loop fuel (bfs_start (btable s1)) = Some s2" and "tbl' = bfs_table s2"
      by (auto simp: backtracking_bfs_def)
    with bfs_loop_nonneg[OF this(1)] nn1 have "bt_costs_nonneg tbl'"
      by (simp add: bfs_start_def)
    with s show ?thesis by simp
  qed
  then have cs: "bt_cout s = bt_cout s1" and nn: "found \<longrightarrow> bt_costs_nonneg (btable s)" by simp_all
  have "render (last out) = ''e -1'' \<longleftrightarrow> \<not> found"
  proof (cases found)
    case True
    with nn have "0 \<le> bt_from_player_cost (btable s (inf_stone_n, inf_stone_m))"
      unfolding bt_costs_nonneg_def by blast
    with True show ?thesis unfolding out using render_Exit_nonneg by simp
  next
    case False
    then show ?thesis unfolding out using render_Exit_minus_one by simp
  qed
  with t l out mv1 cs show ?thesis by auto
qed

text \<open>
  For every run of either program that returns, the output is the move requests followed
  by exactly one result line; the line is \<open>e -1\<close> exactly when the engine reported
  failure, and otherwise carries the recorded cost of the target cell, which is not
  negative. A success of the best-first engine ends with a move onto a cell marked as
  the target; a failure of it ends with an empty open set.
\<close>

lemma final_output_line:
  "(astar_main fuel flag inf_stone_m inf_stone_n inp = Some (Inr out) \<longrightarrow>
      (\<exists>tbl found s. init_game_table inf_stone_n inf_stone_m = Inr tbl
         \<and> launch_a_star fuel inf_stone_n inf_stone_m flag (initial_state tbl inp)
              = Some (Inr (found, s))
         \<and> out = cout s @ [Exit (if found
                    then from_player_cost (table s (inf_stone_n, inf_stone_m)) else - 1)]
         \<and> (\<forall>l\<in>set (cout s). is_move l)
         \<and> (found \<longrightarrow> (\<exists>c. cell_status (table s c) = CHR ''I'' \<and> cout s \<noteq> []
                           \<and> last (cout s) = Move (snd c) (fst c)))
         \<and> (\<not> found \<longrightarrow> open_pq s = [])
         \<and> (render (last out) = ''e -1'' \<longleftrightarrow> \<not> found)))
   \<and> (bt_main fuel' flag' stone_m' stone_n' inp' = Some (Inr out') \<longrightarrow>
      (\<exists>tbl found s. bt_init_game_table stone_n' stone_m' = Inr tbl
         \<and> launch_backtracking fuel' flag' (bt_initial_state tbl inp') = Some (Inr (found, s))
         \<and> out' = bt_cout s @ [Exit (if found
                    then bt_from_player_cost (btable s (stone_n', stone_m')) else - 1)]
         \<and> (\<forall>l\<in>set (bt_cout s). is_move l)
         \<and> (render (last out') = ''e -1'' \<longleftrightarrow> \<not> found)))"
proof (intro conjI impI)
  assume "astar_main fuel flag inf_stone_m inf_stone_n inp = Some (Inr out)"
  then show "\<exists>tbl found s. init_game_table inf_stone_n inf_stone_m = Inr tbl
         \<and> launch_a_star fuel inf_stone_n inf_stone_m flag (initial_state tbl inp)
              = Some (Inr (found, s))
         \<and> out = cout s @ [Exit (if found
                    then from_player_cost (table s (inf_stone_n, inf_stone_m)) else - 1)]
         \<and> (\<forall>l\<in>set (cout s). is_move l)
         \<and> (found \<longrightarrow> (\<exists>c. cell_status (table s c) = CHR ''I'' \<and> cout s \<noteq> []
                           \<and> last (cout s) = Move (snd c) (fst c)))
         \<and> (\<not> found \<longrightarrow> open_pq s = [])
         \<and> (render (last out) = ''e -1'' \<longleftrightarrow> \<not> found)"
    by (rule astar_final_output)
next
  assume "bt_main fuel' flag' stone_m' stone_n' inp' = Some (Inr out')"
  then show "\<exists>tbl found s. bt_init_game_table stone_n' stone_m' = Inr tbl
         \<and> launch_backtracking fuel' flag' (bt_initial_state tbl inp') = Some (Inr (found, s))
         \<and> out' = bt_cout s @ [Exit (if found
                    then bt_from_player_cost (btable s (stone_n', stone_m')) else - 1)]
         \<and> (\<forall>l\<in>set (bt_cout s). is_move l)
         \<and> (render (last out') = ''e -1'' \<longleftrightarrow> \<not> found)"
    by (rule bt_final_output)
qed

subsection \<open>A run that does not return\<close>

text \<open>
  Claim C7. The claim: for every run of either engine the final output is one line,
  \<open>e -1\<close> if and only if the engine exhausted its frontier or exploration without
  stepping onto the target; unreachability is reported by the sentinel, not by a fault.
  With target \<open>(5, 5)\<close>, a silent first response and a second response that reports
  hazards at \<open>(1, 0)\<close>, \<open>(1, 1)\<close> and \<open>(0, 2)\<close>, the agent is enclosed on the cells
  \<open>(0, 0)\<close> and \<open>(0, 1)\<close> and the target is unreachable. The exhaustive engine prints
  \<open>e -1\<close>. The best-first engine finds only the closed cell \<open>(1, 0)\<close> in its open set,
  erases it and dereferences the begin of the empty set: it ends in the fault of claim
  C4 and prints no result line.
\<close>

theorem enclosed_agent_faults_instead_of_minus_one:
  "astar_main 40 0 5 5 [[], [(0, 1, CHR ''P''), (1, 1, CHR ''P''), (2, 0, CHR ''P'')]]
     = Some (Inl EmptyFrontier)
   \<and> bt_main 81 0 5 5 [[], [(0, 1, CHR ''P''), (1, 1, CHR ''P''), (2, 0, CHR ''P'')]]
     = Some (Inr [Move 0 0, Move 1 0, Move 0 0, Exit (- 1)])"
  by code_simp

section \<open>Two runs side by side\<close>

subsection \<open>What a pass of the best-first loop reads\<close>

lemma core_eqD:
  assumes "core_eq s t"
  shows "open_pq s = open_pq t" "closed s = closed t" "cur_pos s = cur_pos t" "cout s = cout t"
    "from_player_cost (table s c) = from_player_cost (table t c)"
    "to_target_cost (table s c) = to_target_cost (table t c)"
    "parent (table s c) = parent (table t c)"
    "dangerous_status (table s c) = dangerous_status (table t c)"
    "(cell_status (table s c) = CHR ''I'') = (cell_status (table t c) = CHR ''I'')"
  using assms unfolding core_eq_def by blast+

lemma core_eqI:
  assumes "open_pq s = open_pq t" "closed s = closed t" "cur_pos s = cur_pos t" "cout s = cout t"
    "\<And>c. from_player_cost (table s c) = from_player_cost (table t c)"
    "\<And>c. to_target_cost (table s c) = to_target_cost (table t c)"
    "\<And>c. parent (table s c) = parent (table t c)"
    "\<And>c. dangerous_status (table s c) = dangerous_status (table t c)"
    "\<And>c. (cell_status (table s c) = CHR ''I'') = (cell_status (table t c) = CHR ''I'')"
  shows "core_eq s t"
  using assms unfolding core_eq_def by blast

lemma core_eq_refl [simp]: "core_eq s s"
  by (simp add: core_eq_def)

lemma less_cell_cong:
  assumes "\<And>c. from_player_cost (tbl c) = from_player_cost (tbl' c)"
    and "\<And>c. to_target_cost (tbl c) = to_target_cost (tbl' c)"
  shows "less_cell tbl a b = less_cell tbl' a b"
  by (simp add: less_cell_def sum_cost_def assms)

lemma pq_insert_cong:
  assumes "\<And>c. from_player_cost (tbl c) = from_player_cost (tbl' c)"
    and "\<And>c. to_target_cost (tbl c) = to_target_cost (tbl' c)"
  shows "pq_insert tbl c xs = pq_insert tbl' c xs"
  by (induction xs) (simp_all add: less_cell_cong[OF assms])

lemma pq_erase_cong:
  assumes "\<And>c. from_player_cost (tbl c) = from_player_cost (tbl' c)"
    and "\<And>c. to_target_cost (tbl c) = to_target_cost (tbl' c)"
  shows "pq_erase tbl c xs = pq_erase tbl' c xs"
  by (simp add: pq_erase_def less_cell_cong[OF assms])

lemma dangerous_status_costs [simp]:
  "dangerous_status (c\<lparr>from_player_cost := a, to_target_cost := b, parent := p\<rparr>)
     = dangerous_status c"
  by (simp add: dangerous_status_def)

lemma update_then_check_cell_unfold:
  "update_then_check_cell cur tn tm cn cm s =
     (if in_borders cn cm \<and> \<not> dangerous_status (table s (cn, cm))
         \<and> from_player_cost (table s cur) + 1 < from_player_cost (table s (cn, cm))
      then s\<lparr>table := (table s)((cn, cm) := (table s (cn, cm))
                            \<lparr>from_player_cost := from_player_cost (table s cur) + 1,
                             to_target_cost := manhattan_distance cn cm tn tm,
                             parent := Some cur\<rparr>),
             open_pq := pq_insert ((table s)((cn, cm) := (table s (cn, cm))
                            \<lparr>from_player_cost := from_player_cost (table s cur) + 1,
                             to_target_cost := manhattan_distance cn cm tn tm,
                             parent := Some cur\<rparr>)) (cn, cm)
                          (pq_erase (table s) (cn, cm) (open_pq s))\<rparr>
      else s)"
  by (simp add: update_then_check_cell_def Let_def)

lemma update_then_check_cell_core:
  assumes "core_eq s t"
  shows "core_eq (update_then_check_cell cur tn tm cn cm s) (update_then_check_cell cur tn tm cn cm t)"
proof -
  note d = core_eqD[OF assms]
  let ?cond = "\<lambda>u. in_borders cn cm \<and> \<not> dangerous_status (table u (cn, cm))
      \<and> from_player_cost (table u cur) + 1 < from_player_cost (table u (cn, cm))"
  have cond: "?cond s = ?cond t" by (simp only: d)
  show ?thesis
  proof (cases "?cond s")
    case False
    with cond have "\<not> ?cond t" by simp
    have "update_then_check_cell cur tn tm cn cm s = s"
      using False by (subst update_then_check_cell_unfold) auto
    moreover have "update_then_check_cell cur tn tm cn cm t = t"
      using \<open>\<not> ?cond t\<close> by (subst update_then_check_cell_unfold) auto
    ultimately show ?thesis using assms by simp
  next
    case True
    with cond have ct: "?cond t" by simp
    let ?upd = "\<lambda>u. (table u)((cn, cm) := (table u (cn, cm))
                            \<lparr>from_player_cost := from_player_cost (table u cur) + 1,
                             to_target_cost := manhattan_distance cn cm tn tm,
                             parent := Some cur\<rparr>)"
    have e1: "pq_erase (table s) (cn, cm) (open_pq s) = pq_erase (table t) (cn, cm) (open_pq t)"
      using pq_erase_cong[of "table s" "table t" "(cn, cm)" "open_pq s"] by (simp only: d)
    have f: "from_player_cost (?upd s c) = from_player_cost (?upd t c)" for c
      by (simp add: d)
    have g: "to_target_cost (?upd s c) = to_target_cost (?upd t c)" for c
      by (simp add: d)
    have e2: "pq_insert (?upd s) (cn, cm) xs = pq_insert (?upd t) (cn, cm) xs" for xs
      by (rule pq_insert_cong) (rule f, rule g)
    have es: "update_then_check_cell cur tn tm cn cm s =
        s\<lparr>table := ?upd s, open_pq := pq_insert (?upd s) (cn, cm) (pq_erase (table s) (cn, cm) (open_pq s))\<rparr>"
      using True by (subst update_then_check_cell_unfold) simp
    have et: "update_then_check_cell cur tn tm cn cm t =
        t\<lparr>table := ?upd t, open_pq := pq_insert (?upd t) (cn, cm) (pq_erase (table t) (cn, cm) (open_pq t))\<rparr>"
      using ct by (subst update_then_check_cell_unfold) simp
    show ?thesis unfolding es et
    proof (rule core_eqI)
      show "open_pq (s\<lparr>table := ?upd s, open_pq := pq_insert (?upd s) (cn, cm) (pq_erase (table s) (cn, cm) (open_pq s))\<rparr>)
          = open_pq (t\<lparr>table := ?upd t, open_pq := pq_insert (?upd t) (cn, cm) (pq_erase (table t) (cn, cm) (open_pq t))\<rparr>)"
        by (simp add: e1 e2)
    qed (simp_all add: d)
  qed
qed

lemma open_neighbours_core:
  "core_eq s t \<Longrightarrow> core_eq (open_neighbours cur tn tm s) (open_neighbours cur tn tm t)"
  unfolding open_neighbours_def Let_def
  by (intro update_then_check_cell_core)

lemma walked_core: "core_eq s t \<Longrightarrow> core_eq (walked cs s) (walked cs t)"
  by (rule core_eqI) (simp_all add: walked_def core_eqD)

lemma core_eq_shield: "core_eq s t \<Longrightarrow> core_eq (s\<lparr>has_shield := a\<rparr>) (t\<lparr>has_shield := b\<rparr>)"
  by (rule core_eqI) (simp_all add: core_eqD)

lemma core_eq_path:
  "core_eq s t \<Longrightarrow> path (table s) c = path (table t) c"
  by (rule path_parent_cong) (simp add: core_eqD)

lemma reconcile_core:
  assumes "core_eq s t"
  shows "rel_option (rel_sum (=) (stepped s t)) (reconcile best s) (reconcile best t)"
proof (cases "neighbour (cur_pos s) best")
  case True
  have "cin s = drop 0 (cin s) \<and> cin t = drop 0 (cin t)" by simp
  then have "stepped s t s t" unfolding stepped_def using assms by blast
  with True assms show ?thesis by (simp add: reconcile_def core_eqD)
next
  case False
  note d = core_eqD[OF assms]
  show ?thesis
  proof (cases "path (table s) (Some (cur_pos s))")
    case None
    with False show ?thesis
      using core_eq_path[OF assms, of "Some (cur_pos s)"]
      by (simp add: reconcile_def return_to_start_eq d[symmetric])
  next
    case (Some pc)
    then have pt: "path (table t) (Some (cur_pos t)) = Some pc"
      using core_eq_path[OF assms, of "Some (cur_pos s)"] by (simp add: d)
    let ?s1 = "(walked (tl pc) s)\<lparr>has_shield := False\<rparr>"
    let ?t1 = "(walked (tl pc) t)\<lparr>has_shield := False\<rparr>"
    have c1: "core_eq ?s1 ?t1" by (intro core_eq_shield walked_core assms)
    have rs: "reconcile best s = stupid_move_to_known_target (parent (table s best)) ?s1"
      using False Some by (simp add: reconcile_def return_to_start_eq walked_def)
    have rt: "reconcile best t = stupid_move_to_known_target (parent (table t best)) ?t1"
      using False pt by (simp add: reconcile_def return_to_start_eq walked_def d[symmetric])
    have pp: "path (table ?s1) (parent (table s best)) = path (table ?t1) (parent (table t best))"
      using core_eq_path[OF c1] by (simp add: d)
    show ?thesis
    proof (cases "path (table ?s1) (parent (table s best))")
      case None
      with pp have "path (table ?t1) (parent (table t best)) = None" by simp
      with None show ?thesis unfolding rs rt by (simp add: stupid_move_to_known_target_def)
    next
      case (Some pb)
      with pp have pt2: "path (table ?t1) (parent (table t best)) = Some pb" by simp
      show ?thesis
      proof (cases "rev pb")
        case Nil
        with Some pt2 show ?thesis unfolding rs rt by (simp add: stupid_move_to_known_target_def)
      next
        case (Cons root rest)
        let ?s2 = "foldl walk_step ?s1 rest" and ?t2 = "foldl walk_step ?t1 rest"
        have "core_eq ?s2 ?t2"
          unfolding foldl_walk_step by (intro core_eq_shield walked_core c1)
        moreover have "table ?t2 = table t" by (simp add: foldl_walk_step walked_def)
        moreover have "cin ?s2 = drop (length (tl pc) + length rest) (cin s)
            \<and> cin ?t2 = drop (length (tl pc) + length rest) (cin t)"
          by (simp add: foldl_walk_step walked_def add.commute)
        ultimately have "stepped s t ?s2 ?t2" unfolding stepped_def by blast
        with Some pt2 Cons show ?thesis unfolding rs rt
          by (simp add: stupid_move_to_known_target_def)
      qed
    qed
  qed
qed

lemma sim_okD:
  assumes "sim_ok Q J f f'"
  shows "\<And>a b k. Q a b \<Longrightarrow> Q (drop k a) (drop k b)"
    and "\<And>a b s t. Q a b \<Longrightarrow> core_eq s t \<Longrightarrow> J (table t) \<Longrightarrow>
              rel_sum (=) (\<lambda>s' t'. core_eq s' t' \<and> J (table t') \<and> cin s' = cin s \<and> cin t' = cin t)
                (apply_events f s (fst (read_response a))) (apply_events f' t (fst (read_response b)))"
    and "\<And>tbl tbl'. (\<And>c. cell_status (tbl' c) = cell_status (tbl c)) \<Longrightarrow> J tbl \<Longrightarrow> J tbl'"
  using assms unfolding sim_ok_def by blast+

lemma move_then_update_sim:
  assumes ok: "sim_ok Q J f f'"
    and st: "sim Q J s t"
  shows "rel_sum (=) (rel_prod (=) (sim Q J))
           (move_then_update c tn tm f s) (move_then_update c tn tm f' t)"
proof -
  note A1 = sim_okD(1)[OF ok] and A2 = sim_okD(2)[OF ok] and A3 = sim_okD(3)[OF ok]
  from st have ce: "core_eq s t" and q: "Q (cin s) (cin t)" and j: "J (table t)"
    by (simp_all add: sim_def)
  note d = core_eqD[OF ce]
  show ?thesis
  proof (cases "cell_status (table s c) = CHR ''I''")
    case True
    then have ti: "cell_status (table t c) = CHR ''I''" by (simp add: d[symmetric])
    let ?s1 = "s\<lparr>cout := cout s @ [Move (snd c) (fst c)]\<rparr>"
    let ?t1 = "t\<lparr>cout := cout t @ [Move (snd c) (fst c)]\<rparr>"
    have "core_eq ?s1 ?t1" by (rule core_eqI) (simp_all add: d)
    then have "sim Q J ?s1 ?t1" using q j by (simp add: sim_def)
    moreover have "move_then_update c tn tm f s = Inr (True, ?s1)"
      using True by (simp add: move_then_update_def Let_def)
    moreover have "move_then_update c tn tm f' t = Inr (True, ?t1)"
      using ti by (simp add: move_then_update_def Let_def)
    ultimately show ?thesis by simp
  next
    case False
    then have ti: "cell_status (table t c) \<noteq> CHR ''I''" by (simp add: d[symmetric])
    let ?base = "\<lambda>u::astar_state. u\<lparr>cout := cout u @ [Move (snd c) (fst c)], cur_pos := c,
                      closed := insert c (closed u)\<rparr>"
    let ?s3 = "(if cell_status (table s c) = CHR ''S'' then (?base s)\<lparr>has_shield := True\<rparr>
               else ?base s)\<lparr>cin := drop 1 (cin s)\<rparr>"
    let ?t3 = "(if cell_status (table t c) = CHR ''S'' then (?base t)\<lparr>has_shield := True\<rparr>
               else ?base t)\<lparr>cin := drop 1 (cin t)\<rparr>"
    have c3: "core_eq ?s3 ?t3" by (rule core_eqI) (simp_all add: d)
    have j3: "J (table ?t3)" using j by simp
    have ms: "move_then_update c tn tm f s =
        (case apply_events f ?s3 (fst (read_response (cin s))) of
           Inl e \<Rightarrow> Inl e | Inr s4 \<Rightarrow> Inr (False, open_neighbours c tn tm s4))"
      using False by (simp add: move_then_update_def Let_def read_response_snd)
    have mt: "move_then_update c tn tm f' t =
        (case apply_events f' ?t3 (fst (read_response (cin t))) of
           Inl e \<Rightarrow> Inl e | Inr t4 \<Rightarrow> Inr (False, open_neighbours c tn tm t4))"
      using ti by (simp add: move_then_update_def Let_def read_response_snd)
    from A2[OF q c3 j3]
    have ev: "rel_sum (=) (\<lambda>s' t'. core_eq s' t' \<and> J (table t') \<and> cin s' = cin ?s3 \<and> cin t' = cin ?t3)
                (apply_events f ?s3 (fst (read_response (cin s))))
                (apply_events f' ?t3 (fst (read_response (cin t))))" .
    show ?thesis
    proof (cases "apply_events f ?s3 (fst (read_response (cin s)))")
      case (Inl e)
      with ev show ?thesis unfolding ms mt
        by (cases "apply_events f' ?t3 (fst (read_response (cin t)))") simp_all
    next
      case (Inr s4)
      with ev obtain t4 where t4: "apply_events f' ?t3 (fst (read_response (cin t))) = Inr t4"
        and c4: "core_eq s4 t4" and j4: "J (table t4)"
        and i4: "cin s4 = drop 1 (cin s)" "cin t4 = drop 1 (cin t)"
        by (cases "apply_events f' ?t3 (fst (read_response (cin t)))") simp_all
      let ?s5 = "open_neighbours c tn tm s4" and ?t5 = "open_neighbours c tn tm t4"
      have "core_eq ?s5 ?t5" using c4 by (rule open_neighbours_core)
      moreover have "J (table ?t5)"
        by (rule A3[OF _ j4]) (simp add: open_neighbours_frame)
      moreover have "Q (cin ?s5) (cin ?t5)"
        using A1[OF q, of 1] by (simp add: open_neighbours_frame i4)
      ultimately have "sim Q J ?s5 ?t5" by (simp add: sim_def)
      with Inr t4 show ?thesis unfolding ms mt by simp
    qed
  qed
qed

lemma loop_body_sim:
  assumes ok: "sim_ok Q J f f'"
    and st: "sim Q J s t"
  shows "rel_option (rel_sum (=) (rel_prod (=) (sim Q J)))
           (loop_body tn tm f s) (loop_body tn tm f' t)"
proof -
  note A1 = sim_okD(1)[OF ok] and A2 = sim_okD(2)[OF ok] and A3 = sim_okD(3)[OF ok]
  from st have ce: "core_eq s t" and q: "Q (cin s) (cin t)" and j: "J (table t)"
    by (simp_all add: sim_def)
  note d = core_eqD[OF ce]
  have ex: "extract_best (closed t) (open_pq t) = extract_best (closed s) (open_pq s)"
    by (simp add: d)
  show ?thesis
  proof (cases "extract_best (closed s) (open_pq s)")
    case (Inl e)
    then show ?thesis by (simp add: loop_body_def ex)
  next
    case (Inr p)
    obtain best rest where p: "p = (best, rest)" by (cases p)
    let ?s0 = "s\<lparr>open_pq := rest\<rparr>" and ?t0 = "t\<lparr>open_pq := rest\<rparr>"
    have c0: "core_eq ?s0 ?t0" by (rule core_eqI) (simp_all add: d)
    have ls: "loop_body tn tm f s =
        (case reconcile best ?s0 of None \<Rightarrow> None | Some (Inl e) \<Rightarrow> Some (Inl e)
         | Some (Inr s1) \<Rightarrow> (case move_then_update best tn tm f s1 of
                               Inl e \<Rightarrow> Some (Inl e) | Inr r \<Rightarrow> Some (Inr r)))"
      using Inr p by (simp add: loop_body_def)
    have lt: "loop_body tn tm f' t =
        (case reconcile best ?t0 of None \<Rightarrow> None | Some (Inl e) \<Rightarrow> Some (Inl e)
         | Some (Inr t1) \<Rightarrow> (case move_then_update best tn tm f' t1 of
                               Inl e \<Rightarrow> Some (Inl e) | Inr r \<Rightarrow> Some (Inr r)))"
      using Inr p by (simp add: loop_body_def ex)
    note rc = reconcile_core[OF c0, of best]
    show ?thesis
    proof (cases "reconcile best ?s0")
      case None
      with rc show ?thesis unfolding ls lt by (cases "reconcile best ?t0") simp_all
    next
      case (Some x)
      with rc obtain y where y: "reconcile best ?t0 = Some y"
        and xy: "rel_sum (=) (stepped ?s0 ?t0) x y"
        by (cases "reconcile best ?t0") simp_all
      show ?thesis
      proof (cases x)
        case (Inl e)
        with xy have "y = Inl e" by (cases y) simp_all
        with Some y Inl show ?thesis unfolding ls lt by simp
      next
        case (Inr s1)
        with xy obtain t1 where t1: "y = Inr t1" and stp: "stepped ?s0 ?t0 s1 t1"
          by (cases y) simp_all
        from stp obtain k where c1: "core_eq s1 t1" and tb: "table t1 = table t"
          and k: "cin s1 = drop k (cin s)" "cin t1 = drop k (cin t)"
          by (auto simp: stepped_def)
        from A1[OF q, of k] k have "Q (cin s1) (cin t1)" by simp
        with c1 tb j have s1: "sim Q J s1 t1" by (simp add: sim_def)
        have "rel_sum (=) (rel_prod (=) (sim Q J))
           (move_then_update best tn tm f s1) (move_then_update best tn tm f' t1)"
          using ok s1 by (rule move_then_update_sim)
        then show ?thesis unfolding ls lt using Some y Inr t1
          by (cases "move_then_update best tn tm f s1";
              cases "move_then_update best tn tm f' t1") simp_all
      qed
    qed
  qed
qed

lemma launch_loop_sim:
  assumes ok: "sim_ok Q J f f'"
  shows "sim Q J s t \<Longrightarrow>
         rel_option (rel_sum (=) (rel_prod (=) (sim Q J)))
           (launch_loop k tn tm f s) (launch_loop k tn tm f' t)"
proof (induction k arbitrary: s t)
  case 0
  then show ?case by simp
next
  case (Suc k)
  from Suc.prems have oe: "open_pq s = open_pq t" by (simp add: sim_def core_eqD)
  show ?case
  proof (cases "open_pq s = []")
    case True
    with oe Suc.prems show ?thesis by simp
  next
    case False
    with oe have ft: "open_pq t \<noteq> []" by simp
    have lb: "rel_option (rel_sum (=) (rel_prod (=) (sim Q J)))
           (loop_body tn tm f s) (loop_body tn tm f' t)"
      using ok Suc.prems by (rule loop_body_sim)
    show ?thesis
    proof (cases "loop_body tn tm f s")
      case None
      with lb have "loop_body tn tm f' t = None" by (cases "loop_body tn tm f' t") simp_all
      with None False ft show ?thesis by simp
    next
      case (Some x)
      with lb obtain y where y: "loop_body tn tm f' t = Some y"
        and xy: "rel_sum (=) (rel_prod (=) (sim Q J)) x y"
        by (cases "loop_body tn tm f' t") simp_all
      show ?thesis
      proof (cases x)
        case (Inl e)
        with xy have "y = Inl e" by (cases y) simp_all
        with Some y Inl False ft show ?thesis by simp
      next
        case (Inr p)
        obtain found s1 where p: "p = (found, s1)" by (cases p)
        from xy Inr p obtain t1 where y1: "y = Inr (found, t1)" and s1: "sim Q J s1 t1"
          by (cases y) (auto simp: rel_prod_conv split: prod.splits)
        show ?thesis
        proof (cases found)
          case True
          with Some y Inr p y1 s1 False ft show ?thesis by simp
        next
          case nf: False
          from Suc.IH[OF s1] Some y Inr p y1 nf False ft show ?thesis by simp
        qed
      qed
    qed
  qed
qed

subsection \<open>The perception flag\<close>

lemma dangerous_status_attribution [simp]:
  "dangerous_status (c\<lparr>possibly_picked_by := x\<rparr>) = dangerous_status c"
  by (simp add: dangerous_status_def)

lemma dangerous_status_new_status:
  "dangerous_status (c\<lparr>cell_status := st\<rparr>)
     = (st = CHR ''P'' \<or> st = CHR ''M'' \<or> st = CHR ''H'' \<or> st = CHR ''T'')"
  by (simp add: dangerous_status_def)

lemma apply_event_flag:
  assumes "core_eq s t"
  shows "rel_sum (=) (\<lambda>s' t'. core_eq s' t' \<and> cin s' = cin s \<and> cin t' = cin t)
           (apply_event f s ev) (apply_event f' t ev)"
proof -
  note d = core_eqD[OF assms]
  obtain m n status where ev: "ev = (m, n, status)" by (cases ev)
  show ?thesis
  proof (cases "in_borders n m")
    case False
    then show ?thesis by (simp add: ev apply_event_def)
  next
    case True
    let ?c1 = "\<lambda>u::astar_state. (table u (n, m))\<lparr>cell_status := status\<rparr>"
    let ?c2 = "\<lambda>g (u::astar_state). (if dangerous_status (?c1 u) \<and> possibly_picked_by (?c1 u) = {} \<and> g \<noteq> 0
                     then (?c1 u)\<lparr>possibly_picked_by :=
                            possibly_picked_by (?c1 u) \<union> {CHR ''H'', CHR ''M'', CHR ''T''}\<rparr>
                     else ?c1 u)"
    let ?r = "\<lambda>g (u::astar_state). u\<lparr>table := (table u)((n, m) := ?c2 g u),
                   closed := (if dangerous_status (?c1 u) then insert (n, m) (closed u) else closed u)\<rparr>"
    have es: "apply_event f s ev = Inr (?r f s)"
      using True by (simp add: ev apply_event_def Let_def)
    have et: "apply_event f' t ev = Inr (?r f' t)"
      using True by (simp add: ev apply_event_def Let_def)
    have "core_eq (?r f s) (?r f' t)"
      by (rule core_eqI) (simp_all add: d dangerous_status_new_status)
    then show ?thesis unfolding es et by simp
  qed
qed

lemma apply_events_flag:
  "core_eq s t \<Longrightarrow>
   rel_sum (=) (\<lambda>s' t'. core_eq s' t' \<and> cin s' = cin s \<and> cin t' = cin t)
     (apply_events f s evs) (apply_events f' t evs)"
proof (induction evs arbitrary: s t)
  case Nil
  then show ?case by simp
next
  case (Cons ev evs)
  note e = apply_event_flag[OF Cons.prems, of f ev f']
  show ?case
  proof (cases "apply_event f s ev")
    case (Inl x)
    with e show ?thesis by (cases "apply_event f' t ev") simp_all
  next
    case (Inr s1)
    with e obtain t1 where t1: "apply_event f' t ev = Inr t1" and c1: "core_eq s1 t1"
      and i: "cin s1 = cin s" "cin t1 = cin t"
      by (cases "apply_event f' t ev") simp_all
    from Cons.IH[OF c1] Inr t1 i show ?thesis
      by (cases "apply_events f s1 evs"; cases "apply_events f' t1 evs") simp_all
  qed
qed

lemma sim_ok_flag: "sim_ok (=) (\<lambda>_. True) f f'"
  unfolding sim_ok_def
proof (intro conjI allI impI)
  fix a b :: "response list" and s t
  assume "a = b \<and> core_eq s t \<and> True"
  then have ab: "a = b" and c: "core_eq s t" by simp_all
  from apply_events_flag[OF c, of f "fst (read_response a)" f']
  show "rel_sum (=) (\<lambda>s' t'. core_eq s' t' \<and> True \<and> cin s' = cin s \<and> cin t' = cin t)
          (apply_events f s (fst (read_response a))) (apply_events f' t (fst (read_response b)))"
    by (simp add: ab)
qed simp_all

lemma astar_main_sim:
  assumes ok: "sim_ok Q J f f'"
    and init: "\<And>tbl. init_game_table tn tm = Inr tbl \<Longrightarrow>
                sim Q J ((initial_state tbl inp)\<lparr>cur_pos := (0, 0)\<rparr>)
                        ((initial_state tbl inp')\<lparr>cur_pos := (0, 0)\<rparr>)"
  shows "astar_main fuel f tm tn inp = astar_main fuel f' tm tn inp'"
proof (cases "init_game_table tn tm")
  case (Inl e)
  then show ?thesis by (simp add: astar_main_def)
next
  case (Inr tbl)
  let ?s = "(initial_state tbl inp)\<lparr>cur_pos := (0, 0)\<rparr>"
  let ?t = "(initial_state tbl inp')\<lparr>cur_pos := (0, 0)\<rparr>"
  have r: "rel_option (rel_sum (=) (rel_prod (=) (sim Q J)))
           (launch_loop fuel tn tm f ?s) (launch_loop fuel tn tm f' ?t)"
    using ok init[OF Inr] by (rule launch_loop_sim)
  have ms: "astar_main fuel f tm tn inp =
      (case launch_loop fuel tn tm f ?s of None \<Rightarrow> None | Some (Inl e) \<Rightarrow> Some (Inl e)
       | Some (Inr (found, s)) \<Rightarrow>
               if \<not> found then Some (Inr (cout s @ [Exit (- 1)]))
               else Some (Inr (cout s @ [Exit (from_player_cost (table s (tn, tm)))])))"
    using Inr by (simp add: astar_main_def launch_a_star_def)
  have mt: "astar_main fuel f' tm tn inp' =
      (case launch_loop fuel tn tm f' ?t of None \<Rightarrow> None | Some (Inl e) \<Rightarrow> Some (Inl e)
       | Some (Inr (found, s)) \<Rightarrow>
               if \<not> found then Some (Inr (cout s @ [Exit (- 1)]))
               else Some (Inr (cout s @ [Exit (from_player_cost (table s (tn, tm)))])))"
    using Inr by (simp add: astar_main_def launch_a_star_def)
  show ?thesis
  proof (cases "launch_loop fuel tn tm f ?s")
    case None
    with r have "launch_loop fuel tn tm f' ?t = None"
      by (cases "launch_loop fuel tn tm f' ?t") simp_all
    with None show ?thesis unfolding ms mt by simp
  next
    case (Some x)
    with r obtain y where y: "launch_loop fuel tn tm f' ?t = Some y"
      and xy: "rel_sum (=) (rel_prod (=) (sim Q J)) x y"
      by (cases "launch_loop fuel tn tm f' ?t") simp_all
    show ?thesis
    proof (cases x)
      case (Inl e)
      with xy have "y = Inl e" by (cases y) simp_all
      with Some y Inl show ?thesis unfolding ms mt by simp
    next
      case (Inr p)
      obtain found s1 where p: "p = (found, s1)" by (cases p)
      from xy Inr p obtain t1 where y1: "y = Inr (found, t1)" and s1: "sim Q J s1 t1"
        by (cases y) (auto simp: rel_prod_conv split: prod.splits)
      from s1 have "core_eq s1 t1" by (simp add: sim_def)
      note d = core_eqD[OF this]
      from Some y Inr p y1 show ?thesis unfolding ms mt by (simp add: d)
    qed
  qed
qed

lemma bt_move_then_update_flag:
  "bt_move_then_update c f s = bt_move_then_update c f' s"
  by (simp add: bt_move_then_update_def)

lemma backtracking_dfs_flag:
  "backtracking_dfs k f cur s = backtracking_dfs k f' cur s"
proof (induction k arbitrary: cur s)
  case 0
  then show ?case by simp
next
  case (Suc k)
  have eq: "backtracking_dfs k f = backtracking_dfs k f'"
    by (intro ext) (rule Suc.IH)
  show ?case
    unfolding backtracking_dfs.simps eq bt_move_then_update_flag[of cur f _ f'] by (rule refl)
qed

text \<open>
  Claim C9. Two runs of either program on the same target and the same oracle
  responses, with different values of the perception-mode flag, write the same move
  requests and the same result line: the outputs are equal as wholes (and the two runs
  fault, or fail to return, together). In the best-first engine the flag only fills
  \<open>possibly_picked_by\<close>, which nothing reads; the exhaustive engine does not read the flag.
\<close>

theorem perception_flag_is_not_observable:
  "astar_main fuel flag1 inf_stone_m inf_stone_n inp
     = astar_main fuel flag2 inf_stone_m inf_stone_n inp
   \<and> bt_main fuel flag1 inf_stone_m inf_stone_n inp
     = bt_main fuel flag2 inf_stone_m inf_stone_n inp"
proof
  show "astar_main fuel flag1 inf_stone_m inf_stone_n inp
     = astar_main fuel flag2 inf_stone_m inf_stone_n inp"
    by (rule astar_main_sim[where Q = "(=)" and J = "\<lambda>_. True"])
       (simp_all add: sim_ok_flag sim_def)
  show "bt_main fuel flag1 inf_stone_m inf_stone_n inp
     = bt_main fuel flag2 inf_stone_m inf_stone_n inp"
    unfolding bt_main_def launch_backtracking_def backtracking_dfs_flag[of fuel flag1 _ _ flag2]
    by (rule refl)
qed

section \<open>The best-first engine on a hazard-free grid\<close>

subsection \<open>A hazard-free oracle is as good as a silent one\<close>

lemma apply_event_benign:
  assumes c: "core_eq s t" and j: "hazard_free_table target (table t)"
    and b: "benign_event target ev"
  shows "\<exists>s'. apply_event f s ev = Inr s' \<and> core_eq s' t \<and> cin s' = cin s"
proof -
  note d = core_eqD[OF c]
  obtain m n status where ev: "ev = (m, n, status)" by (cases ev)
  from b ev have ib: "in_borders n m"
    and nd: "status \<noteq> CHR ''P''" "status \<noteq> CHR ''M''" "status \<noteq> CHR ''H''" "status \<noteq> CHR ''T''"
    and tg: "(status = CHR ''I'') = ((n, m) = target)"
    by (simp_all add: benign_event_def)
  from j have jn: "\<not> dangerous_status (table t (n, m))"
    and ji: "(cell_status (table t (n, m)) = CHR ''I'') = ((n, m) = target)"
    unfolding hazard_free_table_def by blast+
  let ?s' = "s\<lparr>table := (table s)((n, m) := (table s (n, m))\<lparr>cell_status := status\<rparr>)\<rparr>"
  have e: "apply_event f s ev = Inr ?s'"
    using ib nd by (simp add: ev apply_event_def Let_def dangerous_status_new_status)
  have "core_eq ?s' t"
    by (rule core_eqI) (simp_all add: d dangerous_status_new_status nd jn ji tg)
  with e show ?thesis by simp
qed

lemma apply_events_benign:
  assumes j: "hazard_free_table target (table t)"
  shows "core_eq s t \<Longrightarrow> list_all (benign_event target) evs \<Longrightarrow>
         \<exists>s'. apply_events f s evs = Inr s' \<and> core_eq s' t \<and> cin s' = cin s"
proof (induction evs arbitrary: s)
  case Nil
  then show ?case by simp
next
  case (Cons ev evs)
  from Cons.prems have b: "benign_event target ev" and bs: "list_all (benign_event target) evs"
    by simp_all
  from apply_event_benign[OF Cons.prems(1) j b, of f]
  obtain s1 where e: "apply_event f s ev = Inr s1" and c1: "core_eq s1 t" and i: "cin s1 = cin s"
    by blast
  from Cons.IH[OF c1 bs] e i show ?case by auto
qed

lemma read_response_benign:
  "benign_input target a \<Longrightarrow> list_all (benign_event target) (fst (read_response a))"
  by (cases a) (simp_all add: read_response_def benign_input_def)

lemma sim_ok_benign:
  "sim_ok (\<lambda>a b. benign_input target a \<and> b = []) (hazard_free_table target) f f'"
  unfolding sim_ok_def
proof (intro conjI allI impI)
  fix a b :: "response list" and k
  assume "benign_input target a \<and> b = []"
  then show "benign_input target (drop k a)" and "drop k b = []"
    by (auto simp: benign_input_def list_all_iff dest: in_set_dropD)
next
  fix a b :: "response list" and s t
  assume "(benign_input target a \<and> b = []) \<and> core_eq s t \<and> hazard_free_table target (table t)"
  then have ba: "benign_input target a" and b: "b = []" and c: "core_eq s t"
    and j: "hazard_free_table target (table t)" by simp_all
  from apply_events_benign[OF j c read_response_benign[OF ba], of f]
  obtain s' where "apply_events f s (fst (read_response a)) = Inr s'" "core_eq s' t" "cin s' = cin s"
    by blast
  then show "rel_sum (=) (\<lambda>s' t'. core_eq s' t' \<and> hazard_free_table target (table t')
                \<and> cin s' = cin s \<and> cin t' = cin t)
          (apply_events f s (fst (read_response a))) (apply_events f' t (fst (read_response b)))"
    using j by (simp add: b read_response_def)
next
  fix tbl tbl' :: game_table
  assume "(\<forall>c. cell_status (tbl' c) = cell_status (tbl c)) \<and> hazard_free_table target tbl"
  then show "hazard_free_table target tbl'"
    by (simp add: hazard_free_table_def dangerous_status_def)
qed

lemma init_game_table_hazard_free:
  "init_game_table tn tm = Inr tbl \<Longrightarrow> hazard_free_table (tn, tm) tbl"
  by (auto simp: init_game_table_def hazard_free_table_def new_cell_def dangerous_status_def
           split: if_splits)

lemma benign_run_is_silent_run:
  assumes "benign_input (tn, tm) inp"
  shows "astar_main fuel flag tm tn inp = astar_main fuel 0 tm tn []"
proof (rule astar_main_sim[where Q = "\<lambda>a b. benign_input (tn, tm) a \<and> b = []"
      and J = "hazard_free_table (tn, tm)"])
  show "sim_ok (\<lambda>a b. benign_input (tn, tm) a \<and> b = []) (hazard_free_table (tn, tm)) flag 0"
    by (rule sim_ok_benign)
next
  fix tbl assume "init_game_table tn tm = Inr tbl"
  then have "hazard_free_table (tn, tm) tbl" by (rule init_game_table_hazard_free)
  then show "sim (\<lambda>a b. benign_input (tn, tm) a \<and> b = []) (hazard_free_table (tn, tm))
          ((initial_state tbl inp)\<lparr>cur_pos := (0, 0)\<rparr>) ((initial_state tbl [])\<lparr>cur_pos := (0, 0)\<rparr>)"
    using assms by (simp add: sim_def initial_state_def core_eq_def)
qed

subsection \<open>More passes than needed change nothing\<close>

lemma launch_loop_more_fuel:
  "launch_loop k tn tm f s = Some r \<Longrightarrow> launch_loop (k + j) tn tm f s = Some r"
proof (induction k arbitrary: s)
  case 0
  then show ?case by simp
next
  case (Suc k)
  show ?case
  proof (cases "open_pq s = []")
    case True
    with Suc.prems show ?thesis by simp
  next
    case False
    show ?thesis
    proof (cases "loop_body tn tm f s")
      case None
      with Suc.prems False show ?thesis by simp
    next
      case (Some x)
      show ?thesis
      proof (cases x)
        case (Inl e)
        with Some Suc.prems False show ?thesis by auto
      next
        case (Inr p)
        obtain found s1 where p: "p = (found, s1)" by (cases p)
        show ?thesis
        proof (cases found)
          case True
          with Some Inr p Suc.prems False show ?thesis by auto
        next
          case nf: False
          with Some Inr p Suc.prems False have "launch_loop k tn tm f s1 = Some r" by simp
          from Suc.IH[OF this] Some Inr p nf False show ?thesis by simp
        qed
      qed
    qed
  qed
qed

lemma astar_main_more_fuel:
  assumes "astar_main k f tm tn inp = Some r" and "k \<le> fuel"
  shows "astar_main fuel f tm tn inp = Some r"
proof (cases "init_game_table tn tm")
  case (Inl e)
  with assms show ?thesis by (simp add: astar_main_def)
next
  case (Inr tbl)
  let ?s = "(initial_state tbl inp)\<lparr>cur_pos := (0, 0)\<rparr>"
  from assms(1) Inr obtain x where l: "launch_loop k tn tm f ?s = Some x"
    by (cases "launch_loop k tn tm f ?s") (auto simp: astar_main_def launch_a_star_def)
  from assms(2) obtain j where "fuel = k + j" by (auto simp: le_iff_add)
  with launch_loop_more_fuel[OF l, of j] have "launch_loop fuel tn tm f ?s = Some x" by simp
  with l assms(1) Inr show ?thesis by (simp add: astar_main_def launch_a_star_def)
qed

subsection \<open>The silent runs for all targets\<close>

lemma silent_row_0: "list_all (silent_run_ok 0) [1, 2, 3, 4, 5, 6, 7, 8]"
  by code_simp

lemma silent_row_1: "list_all (silent_run_ok 1) [0, 1, 2, 3, 4, 5, 6, 7, 8]"
  by code_simp

lemma silent_row_2: "list_all (silent_run_ok 2) [0, 1, 2, 3, 4, 5, 6, 7, 8]"
  by code_simp

lemma silent_row_3: "list_all (silent_run_ok 3) [0, 1, 2, 3, 4, 5, 6, 7, 8]"
  by code_simp

lemma silent_row_4: "list_all (silent_run_ok 4) [0, 1, 2, 3, 4, 5, 6, 7, 8]"
  by code_simp

lemma silent_row_5: "list_all (silent_run_ok 5) [0, 1, 2, 3, 4, 5, 6, 7, 8]"
  by code_simp

lemma silent_row_6: "list_all (silent_run_ok 6) [0, 1, 2, 3, 4, 5, 6, 7, 8]"
  by code_simp

lemma silent_row_7: "list_all (silent_run_ok 7) [0, 1, 2, 3, 4, 5, 6, 7, 8]"
  by code_simp

lemma silent_row_8: "list_all (silent_run_ok 8) [0, 1, 2, 3, 4, 5, 6, 7, 8]"
  by code_simp

lemma in_row:
  assumes "list_all P [0, 1, 2, 3, 4, 5, 6, 7, 8]" and "0 \<le> m" and "m < (9::int)"
  shows "P m"
proof -
  from assms(2,3) have "m = 0 \<or> m = 1 \<or> m = 2 \<or> m = 3 \<or> m = 4 \<or> m = 5 \<or> m = 6 \<or> m = 7 \<or> m = 8"
    by arith
  with assms(1) show ?thesis by auto
qed

lemma in_row_0:
  assumes "list_all P [1, 2, 3, 4, 5, 6, 7, 8]" and "0 < m" and "m < (9::int)"
  shows "P m"
proof -
  from assms(2,3) have "m = 1 \<or> m = 2 \<or> m = 3 \<or> m = 4 \<or> m = 5 \<or> m = 6 \<or> m = 7 \<or> m = 8"
    by arith
  with assms(1) show ?thesis by auto
qed

lemma silent_runs:
  assumes "in_borders tn tm" and "(tn, tm) \<noteq> (0, 0)"
  shows "silent_run_ok tn tm"
proof -
  from assms(1) have n: "0 \<le> tn" "tn < 9" and m: "0 \<le> tm" "tm < 9"
    by (simp_all add: in_borders_def TABLE_SIZE_def)
  from n consider "tn = 0" | "tn = 1" | "tn = 2" | "tn = 3" | "tn = 4" | "tn = 5"
    | "tn = 6" | "tn = 7" | "tn = 8" by arith
  then show ?thesis
  proof cases
    case 1
    with assms(2) m have "0 < tm" by simp
    from in_row_0[OF silent_row_0 this m(2)] 1 show ?thesis by simp
  next
    case 2
    from in_row[OF silent_row_1 m] 2 show ?thesis by simp
  next
    case 3
    from in_row[OF silent_row_2 m] 3 show ?thesis by simp
  next
    case 4
    from in_row[OF silent_row_3 m] 4 show ?thesis by simp
  next
    case 5
    from in_row[OF silent_row_4 m] 5 show ?thesis by simp
  next
    case 6
    from in_row[OF silent_row_5 m] 6 show ?thesis by simp
  next
    case 7
    from in_row[OF silent_row_6 m] 7 show ?thesis by simp
  next
    case 8
    from in_row[OF silent_row_7 m] 8 show ?thesis by simp
  next
    case 9
    from in_row[OF silent_row_8 m] 9 show ?thesis by simp
  qed
qed

subsection \<open>The reported cost\<close>

text \<open>
  Claim C6. For every target of the table other than the start cell, if the oracle
  never reports a hazard (every event names a cell of the table, carries no hazard
  status, and carries the target marker exactly on the target cell, as on a hazard-free
  grid), the best-first program returns with success, and its result line carries the
  Manhattan distance between \<open>(0, 0)\<close> and the target, whatever the perception flag;
  20 passes of the loop are enough. For the target \<open>(3, 3)\<close> the line is \<open>e 6\<close>.
\<close>

theorem hazard_free_run_reports_distance:
  assumes "in_borders tn tm" and "(tn, tm) \<noteq> (0, 0)"
    and "benign_input (tn, tm) inp" and "20 \<le> fuel"
  shows "\<exists>moves. astar_main fuel flag tm tn inp
                   = Some (Inr (moves @ [Exit (manhattan_distance 0 0 tn tm)]))
              \<and> list_all is_move moves"
proof -
  from silent_runs[OF assms(1,2)] obtain out where
    r: "astar_main 20 0 tm tn [] = Some (Inr out)" and ne: "out \<noteq> []"
    and l: "last out = Exit (manhattan_distance 0 0 tn tm)"
    and mv: "list_all is_move (butlast out)"
    by (auto simp: silent_run_ok_def split: option.splits sum.splits)
  from ne l have o: "out = butlast out @ [Exit (manhattan_distance 0 0 tn tm)]"
    by (metis append_butlast_last_id)
  have "astar_main fuel flag tm tn inp = astar_main fuel 0 tm tn []"
    using assms(3) by (rule benign_run_is_silent_run)
  also have "\<dots> = Some (Inr out)" using r assms(4) by (rule astar_main_more_fuel)
  finally show ?thesis using o mv by metis
qed

theorem hazard_free_run_reports_distance_witness:
  "in_borders 3 3 \<and> ((3::int), (3::int)) \<noteq> (0, 0)
   \<and> benign_input (3, 3) [[(1, 1, CHR ''S'')], [(3, 3, CHR ''I'')]] \<and> (20::nat) \<le> 20
   \<and> (\<exists>moves. astar_main 20 1 3 3 [[(1, 1, CHR ''S'')], [(3, 3, CHR ''I'')]]
                 = Some (Inr (moves @ [Exit 6])) \<and> list_all is_move moves)
   \<and> astar_main 20 0 3 3 []
       = Some (Inr [Move 0 0, Move 1 0, Move 2 0, Move 3 0, Move 3 1, Move 3 2, Move 3 3, Exit 6])
   \<and> render (Exit 6) = ''e 6''"
proof -
  have h1: "in_borders 3 3" by code_simp
  have h2: "((3::int), (3::int)) \<noteq> (0, 0)" by simp
  have h3: "benign_input (3, 3) [[(1, 1, CHR ''S'')], [(3, 3, CHR ''I'')]]" by code_simp
  have h4: "(20::nat) \<le> 20" by simp
  have d: "manhattan_distance 0 0 3 3 = 6" by code_simp
  have r: "astar_main 20 0 3 3 []
       = Some (Inr [Move 0 0, Move 1 0, Move 2 0, Move 3 0, Move 3 1, Move 3 2, Move 3 3, Exit 6])"
    by code_simp
  have e: "render (Exit 6) = ''e 6''" by code_simp
  from hazard_free_run_reports_distance [OF h1 h2 h3 h4, of 1]
  have "\<exists>moves. astar_main 20 1 3 3 [[(1, 1, CHR ''S'')], [(3, 3, CHR ''I'')]]
                 = Some (Inr (moves @ [Exit 6])) \<and> list_all is_move moves"
    unfolding d .
  with h1 h2 h3 h4 r e show ?thesis by (intro conjI)
qed

section \<open>Costs from the start\<close>

subsection \<open>The breadth-first sweep relabels level by level\<close>

text \<open>
  The sweep assigns \<open>cost = cost of the dequeued cell + 1\<close> without comparing with the
  recorded cost. The invariant \<^const>\<open>bfs_inv\<close> records why this never raises a cost when the
  start cell carries cost 0: the queue is sorted by cost and spans at most two
  consecutive levels, costs have the parity of the coordinates, and every cell that was
  never enqueued still carries the initial sentinel.
\<close>


lemma bfs_invD:
  assumes "bfs_inv cur s"
  shows "cur \<in> bfs_visited s" "bfs_visited s \<subseteq> grid" "set (bfs_q s) \<subseteq> grid"
    "sorted (map (bfs_cost s) (bfs_q s))"
    "\<And>c. c \<in> set (bfs_q s) \<Longrightarrow> bfs_cost s cur \<le> bfs_cost s c \<and> bfs_cost s c \<le> bfs_cost s cur + 1"
    "\<And>c. c \<in> bfs_visited s \<Longrightarrow> bfs_cost s c \<le> bfs_cost s cur
                           \<and> bfs_cost s c < int (card (bfs_visited s))"
    "\<And>c. c \<in> set (bfs_q s) \<Longrightarrow> bfs_cost s c \<le> int (card (bfs_visited s))"
    "\<And>c. c \<in> bfs_visited s \<or> c \<in> set (bfs_q s) \<Longrightarrow> even (bfs_cost s c + fst c + snd c)"
    "\<And>c. c \<notin> bfs_visited s \<Longrightarrow> c \<notin> set (bfs_q s) \<Longrightarrow> bfs_cost s c = INF_VAL"
  using assms unfolding bfs_inv_def by blast+

lemma card_visited_le:
  assumes "V \<subseteq> grid"
  shows "int (card V) \<le> 81"
proof -
  have "card V \<le> card grid" using assms by (simp add: card_mono)
  then show ?thesis by (simp add: card_grid)
qed

lemma next_cells_parity1:
  "x \<in> set (next_cells cur) \<Longrightarrow> even (k + fst cur + snd cur) \<Longrightarrow> even (k + 1 + fst x + snd x)"
  by (auto simp: next_cells_def)

lemma next_cells_parity2:
  "x \<in> set (next_cells cur) \<Longrightarrow> even (k + fst x + snd x) \<Longrightarrow> odd (k + fst cur + snd cur)"
  by (auto simp: next_cells_def)

lemma bfs_visit_skip:
  "\<not> (in_borders (fst x) (snd x) \<and> \<not> bt_dangerous_status (bfs_table s x) \<and> x \<notin> bfs_visited s)
   \<Longrightarrow> bfs_visit cur x s = (False, s)"
  by (auto simp: bfs_visit_def)

lemma bfs_visit_take:
  assumes "in_borders (fst x) (snd x)" "\<not> bt_dangerous_status (bfs_table s x)" "x \<notin> bfs_visited s"
  shows "snd (bfs_visit cur x s) =
     s\<lparr>bfs_table := (bfs_table s)(x := (bfs_table s x)\<lparr>bt_from_player_cost := bfs_cost s cur + 1\<rparr>),
       bfs_q := bfs_q s @ [x]\<rparr>"
  using assms by (simp add: bfs_visit_def Let_def bfs_cost_def)

lemma bfs_visit_old_cost:
  assumes inv: "bfs_inv cur s" and x: "x \<in> set (next_cells cur)" and nv: "x \<notin> bfs_visited s"
  shows "bfs_cost s x = bfs_cost s cur + 1 \<or> (bfs_cost s x = INF_VAL \<and> x \<notin> set (bfs_q s))"
proof (cases "x \<in> set (bfs_q s)")
  case True
  from bfs_invD(5)[OF inv True] have r: "bfs_cost s cur \<le> bfs_cost s x" "bfs_cost s x \<le> bfs_cost s cur + 1"
    by simp_all
  from bfs_invD(8)[OF inv, of x] True have ex: "even (bfs_cost s x + fst x + snd x)" by simp
  from bfs_invD(8)[OF inv, of cur] bfs_invD(1)[OF inv]
  have ec: "even (bfs_cost s cur + fst cur + snd cur)" by simp
  from next_cells_parity2[OF x ex]
  have "odd (bfs_cost s x + fst cur + snd cur)" .
  with ec have "bfs_cost s x \<noteq> bfs_cost s cur" by auto
  with r show ?thesis by simp
next
  case False
  with bfs_invD(9)[OF inv nv] show ?thesis by simp
qed

lemma bfs_cur_bound:
  assumes inv: "bfs_inv cur s"
  shows "bfs_cost s cur + 1 \<le> int (card (bfs_visited s))" "bfs_cost s cur + 1 \<le> INF_VAL"
proof -
  from bfs_invD(6)[OF inv bfs_invD(1)[OF inv]]
  show a: "bfs_cost s cur + 1 \<le> int (card (bfs_visited s))" by simp
  from card_visited_le[OF bfs_invD(2)[OF inv]] a
  show "bfs_cost s cur + 1 \<le> INF_VAL" by (simp add: INF_VAL_def)
qed

lemma bfs_visit_cost:
  assumes inv: "bfs_inv cur s" and x: "x \<in> set (next_cells cur)"
  shows "bfs_cost (snd (bfs_visit cur x s)) c \<le> bfs_cost s c"
proof (cases "in_borders (fst x) (snd x) \<and> \<not> bt_dangerous_status (bfs_table s x) \<and> x \<notin> bfs_visited s")
  case False
  then show ?thesis by (simp add: bfs_visit_skip)
next
  case True
  then have nv: "x \<notin> bfs_visited s" by simp
  from True have e: "snd (bfs_visit cur x s) =
     s\<lparr>bfs_table := (bfs_table s)(x := (bfs_table s x)\<lparr>bt_from_player_cost := bfs_cost s cur + 1\<rparr>),
       bfs_q := bfs_q s @ [x]\<rparr>" by (intro bfs_visit_take) simp_all
  from bfs_visit_old_cost[OF inv x nv] bfs_cur_bound(2)[OF inv]
  have "bfs_cost s cur + 1 \<le> bfs_cost s x" by auto
  then show ?thesis unfolding e by (simp add: bfs_cost_def)
qed

lemma bfs_visit_inv:
  assumes inv: "bfs_inv cur s" and x: "x \<in> set (next_cells cur)"
  shows "bfs_inv cur (snd (bfs_visit cur x s))"
proof (cases "in_borders (fst x) (snd x) \<and> \<not> bt_dangerous_status (bfs_table s x) \<and> x \<notin> bfs_visited s")
  case False
  with inv show ?thesis by (simp add: bfs_visit_skip)
next
  case True
  then have nv: "x \<notin> bfs_visited s" and xg: "x \<in> grid" by (simp_all add: grid_def)
  let ?d = "bfs_cost s cur"
  let ?s' = "s\<lparr>bfs_table := (bfs_table s)(x := (bfs_table s x)\<lparr>bt_from_player_cost := ?d + 1\<rparr>),
       bfs_q := bfs_q s @ [x]\<rparr>"
  from True have e: "snd (bfs_visit cur x s) = ?s'" by (intro bfs_visit_take) simp_all
  note d = bfs_invD[OF inv]
  from d(1) nv have xc: "x \<noteq> cur" by auto
  have cost': "bfs_cost ?s' c = (if c = x then ?d + 1 else bfs_cost s c)" for c
    by (simp add: bfs_cost_def)
  have same_q: "c \<in> set (bfs_q s) \<Longrightarrow> bfs_cost ?s' c = bfs_cost s c" for c
    using bfs_visit_old_cost[OF inv x nv] by (auto simp: cost')
  have same_v: "c \<in> bfs_visited s \<Longrightarrow> bfs_cost ?s' c = bfs_cost s c" for c
    using nv by (auto simp: cost')
  have cur': "bfs_cost ?s' cur = ?d" using xc by (simp add: cost')
  have mapq: "map (bfs_cost ?s') (bfs_q s) = map (bfs_cost s) (bfs_q s)"
    by (rule map_cong) (simp_all add: same_q)
  have ec: "even (?d + fst cur + snd cur)" using d(8)[of cur] d(1) by simp
  have ex: "even (?d + 1 + fst x + snd x)"
    using x ec by (rule next_cells_parity1)
  show ?thesis unfolding e bfs_inv_def
  proof (intro conjI ballI allI impI)
    show "cur \<in> bfs_visited ?s'" using d(1) by simp
    show "bfs_visited ?s' \<subseteq> grid" using d(2) by simp
    show "set (bfs_q ?s') \<subseteq> grid" using d(3) xg by simp
    show "sorted (map (bfs_cost ?s') (bfs_q ?s'))"
      using d(4) d(5) by (auto simp: mapq sorted_append cost')
  next
    fix c assume "c \<in> set (bfs_q ?s')"
    then have c: "c \<in> set (bfs_q s) \<or> c = x" by auto
    then show "bfs_cost ?s' cur \<le> bfs_cost ?s' c" and "bfs_cost ?s' c \<le> bfs_cost ?s' cur + 1"
      using d(5)[of c] same_q[of c] xc by (auto simp: cost')
    from c show "bfs_cost ?s' c \<le> int (card (bfs_visited ?s'))"
      using d(7)[of c] same_q[of c] bfs_cur_bound(1)[OF inv] xc by (auto simp: cost')
  next
    fix c assume "c \<in> bfs_visited ?s'"
    then have "c \<in> bfs_visited s" by simp
    then show "bfs_cost ?s' c \<le> bfs_cost ?s' cur" and "bfs_cost ?s' c < int (card (bfs_visited ?s'))"
      using d(6)[of c] same_v[of c] cur' by simp_all
  next
    fix c assume "c \<in> bfs_visited ?s' \<union> set (bfs_q ?s')"
    then have "c \<in> bfs_visited s \<or> c \<in> set (bfs_q s) \<or> c = x" by auto
    then show "even (bfs_cost ?s' c + fst c + snd c)"
      using d(8)[of c] same_q[of c] same_v[of c] ex by (auto simp: cost')
  next
    fix c assume "c \<notin> bfs_visited ?s' \<and> c \<notin> set (bfs_q ?s')"
    then show "bfs_cost ?s' c = INF_VAL" using d(9)[of c] by (simp add: cost')
  qed
qed


lemma bfs_neighbours_inv:
  "bfs_inv cur s \<Longrightarrow> set cs \<subseteq> set (next_cells cur) \<Longrightarrow>
   bfs_inv cur (snd (bfs_neighbours cur cs s))"
proof (induction cs arbitrary: s)
  case Nil
  then show ?case by simp
next
  case (Cons x cs)
  from Cons.prems have x: "x \<in> set (next_cells cur)" and cs: "set cs \<subseteq> set (next_cells cur)"
    by simp_all
  from bfs_visit_inv[OF Cons.prems(1) x] have i1: "bfs_inv cur (snd (bfs_visit cur x s))" .
  show ?case
  proof (cases "bfs_visit cur x s")
    case (Pair f s1)
    with i1 Cons.IH[of s1, OF _ cs] show ?thesis by (cases f) simp_all
  qed
qed

lemma bfs_pop_inv:
  assumes inv: "bfs_inv cur s" and q: "bfs_q s = h # rest"
  shows "bfs_inv h (bfs_pop h rest s)"
proof -
  note d = bfs_invD[OF inv]
  let ?s' = "bfs_pop h rest s"
  have hq: "h \<in> set (bfs_q s)" using q by simp
  have rq: "c \<in> set rest \<Longrightarrow> c \<in> set (bfs_q s)" for c using q by simp
  have cost': "bfs_cost ?s' c = bfs_cost s c" for c by (simp add: bfs_cost_def bfs_pop_def)
  have v': "bfs_visited ?s' = insert h (bfs_visited s)" and q': "bfs_q ?s' = rest"
    by (simp_all add: bfs_pop_def)
  have fin: "finite (bfs_visited s)" using d(2) by (rule finite_subset) simp
  have card': "int (card (bfs_visited s)) \<le> int (card (insert h (bfs_visited s)))"
    using fin by (simp add: card_insert_if)
  have cardh: "h \<notin> bfs_visited s \<Longrightarrow>
      int (card (insert h (bfs_visited s))) = int (card (bfs_visited s)) + 1"
    using fin by simp
  from d(4) q have srt: "sorted (map (bfs_cost s) rest)"
    and hd_le: "\<And>c. c \<in> set rest \<Longrightarrow> bfs_cost s h \<le> bfs_cost s c"
    by simp_all
  from d(5)[OF hq] have hr: "bfs_cost s cur \<le> bfs_cost s h" "bfs_cost s h \<le> bfs_cost s cur + 1"
    by simp_all
  show ?thesis unfolding bfs_inv_def v' q' cost'
  proof (intro conjI ballI allI impI)
    show "h \<in> insert h (bfs_visited s)" by simp
    show "insert h (bfs_visited s) \<subseteq> grid" using d(2) d(3) hq by auto
    show "set rest \<subseteq> grid" using d(3) q by auto
    show "sorted (map (bfs_cost s) rest)" by (rule srt)
  next
    fix c assume c: "c \<in> set rest"
    show "bfs_cost s h \<le> bfs_cost s c" using hd_le[OF c] .
    show "bfs_cost s c \<le> bfs_cost s h + 1" using d(5)[OF rq[OF c]] hr by simp
    show "bfs_cost s c \<le> int (card (insert h (bfs_visited s)))"
      using d(7)[OF rq[OF c]] card' by simp
  next
    fix c assume c: "c \<in> insert h (bfs_visited s)"
    show "bfs_cost s c \<le> bfs_cost s h"
    proof (cases "c = h")
      case False
      with c d(6)[of c] hr show ?thesis by simp
    qed simp
    show "bfs_cost s c < int (card (insert h (bfs_visited s)))"
    proof (cases "c \<in> bfs_visited s")
      case True
      with d(6)[of c] card' show ?thesis by simp
    next
      case False
      with c have ch: "c = h" and hn: "h \<notin> bfs_visited s" by auto
      from d(7)[OF hq] cardh[OF hn] show ?thesis by (simp add: ch)
    qed
  next
    fix c assume "c \<in> insert h (bfs_visited s) \<union> set rest"
    then have "c \<in> bfs_visited s \<or> c \<in> set (bfs_q s)" using q by auto
    then show "even (bfs_cost s c + fst c + snd c)" by (rule d(8))
  next
    fix c assume "c \<notin> insert h (bfs_visited s) \<and> c \<notin> set rest"
    then have "c \<notin> bfs_visited s" "c \<notin> set (bfs_q s)" using q by auto
    then show "bfs_cost s c = INF_VAL" by (rule d(9))
  qed
qed

lemma bfs_start_top:
  assumes "costs_initial tbl"
  shows "bfs_top (bfs_start tbl)"
proof -
  let ?s = "bfs_pop (0, 0) [] (bfs_start tbl)"
  from assms have t0: "bt_from_player_cost (tbl (0, 0)) = 0"
    and ti: "\<And>c. c \<noteq> (0, 0) \<Longrightarrow> bt_from_player_cost (tbl c) = INF_VAL"
    unfolding costs_initial_def by blast+
  have c0: "bfs_cost ?s (0, 0) = 0" and ci: "\<And>c. c \<noteq> (0, 0) \<Longrightarrow> bfs_cost ?s c = INF_VAL"
    using t0 ti by (simp_all add: bfs_cost_def bfs_pop_def bfs_start_def)
  have "bfs_inv (0, 0) ?s"
    unfolding bfs_inv_def
    using c0 ci by (auto simp: bfs_pop_def bfs_start_def grid_eq)
  then show ?thesis by (simp add: bfs_top_def bfs_start_def)
qed

lemma bfs_pass_top:
  assumes top: "bfs_top s" and q: "bfs_q s = cur # rest"
  shows "bfs_top (snd (bfs_neighbours cur (next_cells cur) (bfs_pop cur rest s)))"
proof -
  from top q have "bfs_inv cur (bfs_pop cur rest s)" by (simp add: bfs_top_def)
  then have i: "bfs_inv cur (snd (bfs_neighbours cur (next_cells cur) (bfs_pop cur rest s)))"
    by (rule bfs_neighbours_inv) simp
  show ?thesis unfolding bfs_top_def
    using bfs_pop_inv[OF i] by blast
qed

lemma bfs_after_passes_top:
  "bfs_top s \<Longrightarrow> bfs_after_passes k s = Some s' \<Longrightarrow> bfs_top s'"
proof (induction k arbitrary: s)
  case 0
  then show ?case by simp
next
  case (Suc k)
  from Suc.prems(2) obtain cur rest where q: "bfs_q s = cur # rest"
    by (cases "bfs_q s") simp_all
  let ?p = "bfs_neighbours cur (next_cells cur) (bfs_pop cur rest s)"
  from bfs_pass_top[OF Suc.prems(1) q] have t1: "bfs_top (snd ?p)" .
  from Suc.prems(2) q have "bfs_after_passes k (snd ?p) = Some s'"
    by (cases ?p) (auto split: bool.splits)
  from Suc.IH[OF t1 this] show ?case .
qed

lemma bfs_mutation_monotone:
  assumes init: "costs_initial tbl"
    and reach: "bfs_after_passes k (bfs_start tbl) = Some s"
    and q: "bfs_q s = cur # rest"
    and j: "j < length (next_cells cur)"
    and pre: "bfs_neighbours cur (take j (next_cells cur)) (bfs_pop cur rest s) = (False, s1)"
  shows "bfs_cost (snd (bfs_visit cur (next_cells cur ! j) s1)) c \<le> bfs_cost s1 c"
proof -
  from bfs_after_passes_top[OF bfs_start_top[OF init] reach] q
  have "bfs_inv cur (bfs_pop cur rest s)" by (simp add: bfs_top_def)
  then have "bfs_inv cur (snd (bfs_neighbours cur (take j (next_cells cur)) (bfs_pop cur rest s)))"
    by (rule bfs_neighbours_inv) (rule set_take_subset)
  with pre have i: "bfs_inv cur s1" by simp
  from j have "next_cells cur ! j \<in> set (next_cells cur)" by simp
  with i show ?thesis by (rule bfs_visit_cost)
qed


subsection \<open>Assignments of the best-first engine\<close>

lemma reconcile_table:
  assumes r: "reconcile best s = Some (Inr s')"
  shows "table s' = table s"
proof (cases "neighbour (cur_pos s) best")
  case True
  with r show ?thesis by (simp add: reconcile_def)
next
  case False
  with r obtain s1 where rs: "return_to_start s = Some s1"
    and w: "stupid_move_to_known_target (parent (table s1 best)) (s1\<lparr>has_shield := False\<rparr>)
              = Some (Inr s')"
    by (auto simp: reconcile_def split: option.splits)
  from rs obtain pc where s1: "s1 = walked (tl pc) s"
    by (auto simp: return_to_start_eq split: option.splits)
  from w obtain rest where s': "s' = foldl walk_step (s1\<lparr>has_shield := False\<rparr>) rest"
    by (auto simp: stupid_move_to_known_target_def split: option.splits list.splits)
  show ?thesis by (simp add: s' s1 foldl_walk_step walked_def)
qed

lemma move_then_update_cost:
  assumes m: "move_then_update c tn tm f s = Inr (found, s')"
  shows "from_player_cost (table s' x) \<le> from_player_cost (table s x)"
proof (cases "cell_status (table s c) = CHR ''I''")
  case True
  with m show ?thesis by (auto simp: move_then_update_def Let_def)
next
  case False
  with m obtain s3 s4 where ev: "apply_events f s3 (fst (read_response (cin s))) = Inr s4"
    and t3: "table s3 = table s" and s': "s' = open_neighbours c tn tm s4"
    by (auto simp: move_then_update_def Let_def split: if_splits sum.splits)
  from apply_events_frame[OF ev, of x] t3
  have "from_player_cost (table s4 x) = from_player_cost (table s x)" by simp
  with open_neighbours_cost[of c tn tm s4 x] show ?thesis by (simp add: s')
qed

lemma loop_body_cost:
  assumes b: "loop_body tn tm f s = Some (Inr (found, s'))"
  shows "from_player_cost (table s' x) \<le> from_player_cost (table s x)"
proof -
  from b obtain best rest s1 where r: "reconcile best (s\<lparr>open_pq := rest\<rparr>) = Some (Inr s1)"
    and m: "move_then_update best tn tm f s1 = Inr (found, s')"
    by (rule loop_body_cases)
  from reconcile_table[OF r] move_then_update_cost[OF m, of x] show ?thesis by simp
qed

subsection \<open>Assignments of the exhaustive engine\<close>

lemma backtracking_dfs_costs:
  assumes d: "backtracking_dfs k f cur b = Some (Inr (res, b'))"
  shows "bt_from_player_cost (btable b' x) = bt_from_player_cost (btable b x)"
proof -
  let ?P = "\<lambda>t::bt_state. \<forall>x. bt_from_player_cost (btable t x) = bt_from_player_cost (btable b x)"
  have "?P b'"
  proof (rule backtracking_dfs_preserves[where P = ?P, OF _ _ d])
    fix c t r t'
    assume m: "bt_move_then_update c f (t\<lparr>dfs_calls := Suc (dfs_calls t)\<rparr>) = Inr (r, t')"
      and p: "?P t"
    from bt_move_then_update_out[OF m] p show "?P t'" by simp
  next
    fix c t assume "?P t"
    then show "?P (bt_stupid_move c t)" by simp
  next
    show "?P b" by simp
  qed
  then show ?thesis by blast
qed

lemma bt_init_costs_initial:
  assumes "bt_init_game_table sn sm = Inr tbl" and "(sn, sm) \<noteq> (0, 0)"
  shows "costs_initial tbl"
proof -
  from assms(1) have t: "tbl = ((\<lambda>_. bt_new_cell (CHR 0x00) INF_VAL)
               ((0, 0) := bt_new_cell (CHR ''A'') 0))
               ((sn, sm) := bt_new_cell (CHR ''I'') INF_VAL)"
    by (auto simp: bt_init_game_table_def split: if_splits)
  have "bt_from_player_cost (tbl (0, 0)) = 0"
    using assms(2) by (auto simp: t bt_new_cell_def)
  moreover have "bt_from_player_cost (tbl c) = INF_VAL" if "c \<noteq> (0, 0)" for c
    using that by (simp add: t bt_new_cell_def)
  ultimately show ?thesis unfolding costs_initial_def by blast
qed

subsection \<open>Every assignment\<close>

text \<open>
  Claim C5. A cell's cost from the start never increases during a run. In the best-first
  engine the only assignment is the guarded one of \<^const>\<open>update_then_check_cell\<close>, so
  neither a single call nor a whole pass of the loop raises the cost of any cell. In the
  exhaustive engine the exploration never writes a cost, and, for a target other than the
  start cell, every single assignment of the breadth-first sweep (the visit of the
  \<open>j\<close>-th neighbour of the dequeued cell \<open>c\<close>, in any pass \<open>k\<close>, after any exploration)
  leaves the cost of every cell less than or equal to what it was. The oracle's input
  \<open>inp\<close> is arbitrary.
\<close>

theorem cost_from_start_never_increases:
  "from_player_cost (table (update_then_check_cell cur tn tm cn cm s) x)
     \<le> from_player_cost (table s x)
   \<and> (loop_body tn tm flag s = Some (Inr (found, s')) \<longrightarrow>
        from_player_cost (table s' x) \<le> from_player_cost (table s x))
   \<and> (backtracking_dfs fuel flag c0 b = Some (Inr (sol, b')) \<longrightarrow>
        bt_from_player_cost (btable b' x) = bt_from_player_cost (btable b x))
   \<and> (bt_init_game_table sn sm = Inr tbl0 \<and> (sn, sm) \<noteq> (0, 0)
        \<and> backtracking_dfs fuel' flag' (0, 0) (bt_initial_state tbl0 inp) = Some (Inr (sol', b1))
        \<and> bfs_after_passes k (bfs_start (btable b1)) = Some q
        \<and> bfs_q q = c # rest \<and> j < length (next_cells c)
        \<and> bfs_neighbours c (take j (next_cells c)) (bfs_pop c rest q) = (False, q1) \<longrightarrow>
        bt_from_player_cost (bfs_table (snd (bfs_visit c (next_cells c ! j) q1)) x)
          \<le> bt_from_player_cost (bfs_table q1 x))"
proof (intro conjI impI)
  show "from_player_cost (table (update_then_check_cell cur tn tm cn cm s) x)
     \<le> from_player_cost (table s x)" by (rule update_then_check_cell_cost)
next
  assume "loop_body tn tm flag s = Some (Inr (found, s'))"
  then show "from_player_cost (table s' x) \<le> from_player_cost (table s x)"
    by (rule loop_body_cost)
next
  assume "backtracking_dfs fuel flag c0 b = Some (Inr (sol, b'))"
  then show "bt_from_player_cost (btable b' x) = bt_from_player_cost (btable b x)"
    by (rule backtracking_dfs_costs)
next
  assume a: "bt_init_game_table sn sm = Inr tbl0 \<and> (sn, sm) \<noteq> (0, 0)
        \<and> backtracking_dfs fuel' flag' (0, 0) (bt_initial_state tbl0 inp) = Some (Inr (sol', b1))
        \<and> bfs_after_passes k (bfs_start (btable b1)) = Some q
        \<and> bfs_q q = c # rest \<and> j < length (next_cells c)
        \<and> bfs_neighbours c (take j (next_cells c)) (bfs_pop c rest q) = (False, q1)"
  then have i0: "costs_initial tbl0" using bt_init_costs_initial by blast
  from a have d: "backtracking_dfs fuel' flag' (0, 0) (bt_initial_state tbl0 inp) = Some (Inr (sol', b1))"
    by simp
  have "bt_from_player_cost (btable b1 y) = bt_from_player_cost (tbl0 y)" for y
    using backtracking_dfs_costs[OF d, of y] by (simp add: bt_initial_state_def)
  with i0 have i1: "costs_initial (btable b1)" by (simp add: costs_initial_def)
  from a have "bfs_after_passes k (bfs_start (btable b1)) = Some q" "bfs_q q = c # rest"
    "j < length (next_cells c)"
    "bfs_neighbours c (take j (next_cells c)) (bfs_pop c rest q) = (False, q1)" by simp_all
  from bfs_mutation_monotone[OF i1 this, of x]
  show "bt_from_player_cost (bfs_table (snd (bfs_visit c (next_cells c ! j) q1)) x)
          \<le> bt_from_player_cost (bfs_table q1 x)" by (simp add: bfs_cost_def)
qed

text \<open>
  The statement at concrete runs without reports: the first pass of the best-first loop
  for the target (3,3) lowers the cost of the cell (0,1) from the sentinel to 1, and in
  the sweep for the target (1,1) the second pass labels the cell (0,2) with 2.
\<close>


theorem cost_from_start_never_increases_witness:
  "(case init_game_table 3 3 of
      Inl e \<Rightarrow> False
    | Inr tbl \<Rightarrow>
        (case loop_body 3 3 0 (initial_state tbl []) of
           Some (Inr (found, s')) \<Rightarrow>
             from_player_cost (table (initial_state tbl []) (0, 1)) = INF_VAL \<and>
             from_player_cost (table s' (0, 1)) = 1 \<and>
             from_player_cost (table s' (0, 1)) \<le> from_player_cost (table (initial_state tbl []) (0, 1))
         | _ \<Rightarrow> False))
   \<and> (case bt_init_game_table 1 1 of
      Inl e \<Rightarrow> False
    | Inr tbl0 \<Rightarrow>
        ((1::int), (1::int)) \<noteq> (0, 0) \<and>
        (case backtracking_dfs 81 0 (0, 0) (bt_initial_state tbl0 []) of
           Some (Inr (sol, b1)) \<Rightarrow>
             bt_from_player_cost (btable b1 (0, 2)) = bt_from_player_cost (tbl0 (0, 2)) \<and>
             (case bfs_after_passes 1 (bfs_start (btable b1)) of
                None \<Rightarrow> False
              | Some q \<Rightarrow>
                  bfs_q q = [(0, 1), (1, 0)] \<and> (2::nat) < length (next_cells (0, 1)) \<and>
                  \<not> fst (bfs_neighbours (0, 1) (take 2 (next_cells (0, 1))) (bfs_pop (0, 1) [(1, 0)] q)) \<and>
                  bt_from_player_cost (bfs_table (snd (bfs_visit (0, 1) (next_cells (0, 1) ! 2)
                     (snd (bfs_neighbours (0, 1) (take 2 (next_cells (0, 1)))
                            (bfs_pop (0, 1) [(1, 0)] q))))) (0, 2))
                  \<le> bt_from_player_cost (bfs_table
                     (snd (bfs_neighbours (0, 1) (take 2 (next_cells (0, 1)))
                            (bfs_pop (0, 1) [(1, 0)] q))) (0, 2)))
         | _ \<Rightarrow> False))"
proof -
  have "\<not> isl (init_game_table 3 3)" by code_simp
  then obtain tbl where t: "init_game_table 3 3 = Inr tbl"
    by (cases "init_game_table 3 3") auto
  have the_t: "tbl = projr (init_game_table 3 3)" unfolding t by simp
  let ?s = "initial_state tbl []"
  have "case loop_body 3 3 0 ?s of Some (Inr (found, s')) \<Rightarrow> True | _ \<Rightarrow> False"
    unfolding the_t by code_simp
  then obtain found s' where l: "loop_body 3 3 0 ?s = Some (Inr (found, s'))"
    by (auto split: option.splits sum.splits)
  have the_s': "s' = snd (projr (the (loop_body 3 3 0 ?s)))" unfolding l by simp
  have v0: "from_player_cost (table ?s (0, 1)) = INF_VAL" unfolding the_t by code_simp
  have v1: "from_player_cost (table s' (0, 1)) = 1" unfolding the_s' the_t by code_simp
  note T1 = cost_from_start_never_increases
    [of "(0, 0)" 3 3 0 1 ?s "(0, 1)" 0 found s', THEN conjunct2, THEN conjunct1, THEN mp, OF l]
  have "\<not> isl (bt_init_game_table 1 1)" by code_simp
  then obtain tbl0 where t0: "bt_init_game_table 1 1 = Inr tbl0"
    by (cases "bt_init_game_table 1 1") auto
  have the_t0: "tbl0 = projr (bt_init_game_table 1 1)" unfolding t0 by simp
  let ?b = "bt_initial_state tbl0 []"
  have "case backtracking_dfs 81 0 (0, 0) ?b of Some (Inr (sol, b1)) \<Rightarrow> True | _ \<Rightarrow> False"
    unfolding the_t0 by code_simp
  then obtain sol b1 where d: "backtracking_dfs 81 0 (0, 0) ?b = Some (Inr (sol, b1))"
    by (auto split: option.splits sum.splits)
  have the_b1: "b1 = snd (projr (the (backtracking_dfs 81 0 (0, 0) ?b)))" unfolding d by simp
  have "bfs_after_passes 1 (bfs_start (btable b1)) \<noteq> None"
    unfolding the_b1 the_t0 by code_simp
  then obtain q where r: "bfs_after_passes 1 (bfs_start (btable b1)) = Some q" by auto
  have the_q: "q = the (bfs_after_passes 1 (bfs_start (btable b1)))" unfolding r by simp
  have qq: "bfs_q q = [(0, 1), (1, 0)]" unfolding the_q the_b1 the_t0 by code_simp
  have j: "(2::nat) < length (next_cells (0, 1))" by code_simp
  let ?p = "bfs_neighbours (0, 1) (take 2 (next_cells (0, 1))) (bfs_pop (0, 1) [(1, 0)] q)"
  have nf: "\<not> fst ?p" unfolding the_q the_b1 the_t0 by code_simp
  then have pre: "?p = (False, snd ?p)" by (cases ?p) simp
  have ne: "((1::int), (1::int)) \<noteq> (0, 0)" by simp
  note T = cost_from_start_never_increases
    [of "(0, 0)" 3 3 0 1 ?s "(0, 2)" 0 found s' 81 "(0, 0)" ?b sol b1 1 1 tbl0 81 0 "[]"
        sol b1 1 q "(0, 1)" "[(1, 0)]" 2 "snd ?p"]
  from T d have c1: "bt_from_player_cost (btable b1 (0, 2)) = bt_from_player_cost (tbl0 (0, 2))"
    by (simp add: bt_initial_state_def)
  from T t0 ne d r qq j pre
  have c2: "bt_from_player_cost (bfs_table (snd (bfs_visit (0, 1) (next_cells (0, 1) ! 2) (snd ?p))) (0, 2))
          \<le> bt_from_player_cost (bfs_table (snd ?p) (0, 2))" by blast
  show ?thesis unfolding t t0 using l v0 v1 T1 ne d c1 r qq j nf c2 by simp
qed

section \<open>The target on the start cell\<close>

text \<open>
  The grid of the specification has its target on a cell other than the start, and the
  statements above about reported costs and about the sweep carry that hypothesis. It
  cannot be dropped: both programs build the table by writing the start cell and then
  the target cell, so for the target \<open>(0, 0)\<close> the start cell carries the sentinel
  instead of 0. The best-first program then reports the sentinel, and the sweep labels
  the neighbours of the start cell with the sentinel plus one.
\<close>

lemma best_first_run_with_target_on_start:
  "astar_main 20 0 0 0 [] = Some (Inr [Move 0 0, Exit INF_VAL])"
  by code_simp

lemma sweep_with_target_on_start:
  "(case bt_init_game_table 0 0 of
      Inl e \<Rightarrow> False
    | Inr tbl0 \<Rightarrow>
        (case backtracking_dfs 81 0 (0, 0)
                (bt_initial_state tbl0
                   [[(0, 1, CHR ''P''), (1, 1, CHR ''P''), (2, 0, CHR ''P'')]]) of
           Some (Inr (sol, b1)) \<Rightarrow>
             sol \<and> bt_cout b1 = [Move 0 0, Move 1 0, Move 0 0]
             \<and> bt_from_player_cost (btable b1 (0, 0)) = INF_VAL
             \<and> bt_from_player_cost (btable b1 (0, 1)) = INF_VAL
             \<and> bt_from_player_cost
                  (bfs_table (snd (bfs_visit (0, 0) (0, 1)
                     (bfs_pop (0, 0) [] (bfs_start (btable b1))))) (0, 1)) = INF_VAL + 1
         | _ \<Rightarrow> False))"
  by code_simp

end
